theory Spec2Isabelle
  imports Main "HOL-Library.FSet" "HOL-Library.Sublist" "HOL-Library.Multiset"
begin

section \<open>Python strings\<close>

text \<open>
  A Python \<open>str\<close> is modelled as a \<open>string\<close> (a list of characters with codes below 256).
  The helpers below are the string methods that the crawler and the URL parser of the
  standard library use, with Python's conventions: \<open>find\<close> and \<open>rfind\<close> return \<open>-1\<close> when the
  character is absent, and a negative slice bound counts from the end.
\<close>

definition py_find :: "string \<Rightarrow> char \<Rightarrow> nat \<Rightarrow> int" where
  \<comment> \<open>\<open>s.find(c, start)\<close>\<close>
  "py_find s c start =
     (if c \<in> set (drop start s)
      then int (start + length (takeWhile (\<lambda>x. x \<noteq> c) (drop start s)))
      else - 1)"

definition py_rfind :: "string \<Rightarrow> char \<Rightarrow> int" where
  \<comment> \<open>\<open>s.rfind(c)\<close>\<close>
  "py_rfind s c =
     (if c \<in> set s
      then int (length s - 1 - length (takeWhile (\<lambda>x. x \<noteq> c) (rev s)))
      else - 1)"

definition slice_to :: "string \<Rightarrow> int \<Rightarrow> string" where
  \<comment> \<open>\<open>s[:i]\<close>\<close>
  "slice_to s i = (if i < 0 then take (length s - nat (- i)) s else take (nat i) s)"

definition slice_from :: "string \<Rightarrow> int \<Rightarrow> string" where
  \<comment> \<open>\<open>s[i:]\<close>\<close>
  "slice_from s i = (if i < 0 then drop (length s - nat (- i)) s else drop (nat i) s)"

definition split1 :: "string \<Rightarrow> char \<Rightarrow> string \<times> string" where
  \<comment> \<open>\<open>s.split(c, 1)\<close> for a string \<open>s\<close> that contains \<open>c\<close>: the text before the first
      \<open>c\<close> and the text after it\<close>
  "split1 s c = (takeWhile (\<lambda>x. x \<noteq> c) s, drop 1 (dropWhile (\<lambda>x. x \<noteq> c) s))"

definition endswith :: "string \<Rightarrow> string \<Rightarrow> bool" where
  "endswith s t = suffix t s"

definition isascii :: "char \<Rightarrow> bool" where
  "isascii c = ((of_char c :: nat) < 128)"

definition ascii_lowercase :: string where
  "ascii_lowercase = ''abcdefghijklmnopqrstuvwxyz''"

definition ascii_uppercase :: string where
  "ascii_uppercase = ''ABCDEFGHIJKLMNOPQRSTUVWXYZ''"

definition isalpha :: "char \<Rightarrow> bool" where
  \<comment> \<open>\<open>c.isalpha()\<close> for an ASCII character, the only case where the parser asks\<close>
  "isalpha c = (c \<in> set (ascii_lowercase @ ascii_uppercase))"

definition lower :: "char \<Rightarrow> char" where
  \<comment> \<open>\<open>c.lower()\<close>, applied by the parser to scheme characters only\<close>
  "lower c = (case map_of (zip ascii_uppercase ascii_lowercase) c of Some l \<Rightarrow> l | None \<Rightarrow> c)"


section \<open>The URL parser of the standard library\<close>

text \<open>
  \<open>crawler.py\<close> imports \<open>urlparse\<close> from \<open>urllib.parse\<close>. The definitions of this section
  follow the text of that module (CPython 3.11): \<open>urlsplit\<close>, \<open>_splitnetloc\<close>,
  \<open>_splitparams\<close> and \<open>urlparse\<close>, called with the default arguments \<open>scheme=''\<close> and
  \<open>allow_fragments=True\<close>. A \<open>ValueError\<close> is the result \<open>None\<close>.

  Two checks of the module look at tables that are outside this development: the syntax
  of an address between brackets (\<open>_check_bracketed_host\<close>, which asks the \<open>ipaddress\<close>
  module) and the NFKC normal form of a host name that has non-ASCII characters
  (\<open>_checknetloc\<close>, which asks \<open>unicodedata\<close>). They are parameters: each says whether the
  check passes.
\<close>

record urllib =
  check_bracketed_host :: "string \<Rightarrow> bool"
  nfkc_ok :: "string \<Rightarrow> bool"

definition scheme_chars :: string where
  "scheme_chars = ascii_lowercase @ ascii_uppercase @ ''0123456789'' @ ''+-.''"

definition uses_params :: "string list" where
  "uses_params = ['''', ''ftp'', ''hdl'', ''prospero'', ''http'', ''imap'',
                  ''https'', ''shttp'', ''rtsp'', ''rtsps'', ''rtspu'', ''sip'',
                  ''sips'', ''mms'', ''sftp'', ''tel'']"

definition lstrip_c0 :: "string \<Rightarrow> string" where
  \<comment> \<open>\<open>url.lstrip(_WHATWG_C0_CONTROL_OR_SPACE)\<close>: the characters with codes 0 to 32\<close>
  "lstrip_c0 url = dropWhile (\<lambda>c. (of_char c :: nat) \<le> 32) url"

definition remove_unsafe :: "string \<Rightarrow> string" where
  \<comment> \<open>the loop over \<open>_UNSAFE_URL_BYTES_TO_REMOVE\<close>: tab, carriage return, line feed\<close>
  "remove_unsafe url = filter (\<lambda>c. c \<notin> {CHR 0x09, CHR 0x0D, CHR 0x0A}) url"

definition splitnetloc :: "string \<Rightarrow> nat \<Rightarrow> string \<times> string" where
  "splitnetloc url start =
     (let delim = foldl (\<lambda>delim c. let wdelim = py_find url c start
                                    in if wdelim \<ge> 0 then min delim wdelim else delim)
                        (int (length url)) ''/?#''
      in (take (nat delim - start) (drop start url), slice_from url delim))"

definition splitparams :: "string \<Rightarrow> string \<times> string" where
  "splitparams url =
     (if CHR ''/'' \<in> set url
      then (let i = py_find url CHR '';'' (nat (py_rfind url CHR ''/''))
            in if i < 0 then (url, '''') else (slice_to url i, slice_from url (i + 1)))
      else (let i = py_find url CHR '';'' 0
            in (slice_to url i, slice_from url (i + 1))))"

record split_result =
  sr_scheme :: string
  sr_netloc :: string
  sr_path :: string
  sr_query :: string
  sr_fragment :: string

definition split_scheme :: "string \<Rightarrow> string \<times> string" where
  \<comment> \<open>lines \<open>i = url.find(':')\<close> to \<open>scheme, url = url[:i].lower(), url[i+1:]\<close> of \<open>urlsplit\<close>\<close>
  "split_scheme url =
     (let i = py_find url CHR '':'' 0
      in if i > 0 \<and> (case url of [] \<Rightarrow> False | c # _ \<Rightarrow> isascii c \<and> isalpha c)
            \<and> (\<forall>c \<in> set (slice_to url i). c \<in> set scheme_chars)
         then (map lower (slice_to url i), slice_from url (i + 1))
         else ('''', url))"

definition bracketed_host :: "string \<Rightarrow> string" where
  \<comment> \<open>\<open>netloc.partition('[')[2].partition(']')[0]\<close>\<close>
  "bracketed_host netloc =
     takeWhile (\<lambda>x. x \<noteq> CHR '']'') (drop 1 (dropWhile (\<lambda>x. x \<noteq> CHR ''['') netloc))"

definition checknetloc :: "urllib \<Rightarrow> string \<Rightarrow> bool" where
  \<comment> \<open>\<open>_checknetloc\<close>: True when it returns, False when it raises\<close>
  "checknetloc lib netloc = (if netloc = [] \<or> (\<forall>c \<in> set netloc. isascii c) then True
                             else nfkc_ok lib netloc)"

definition urlsplit :: "urllib \<Rightarrow> string \<Rightarrow> split_result option" where
  "urlsplit lib url0 =
     (let url1 = remove_unsafe (lstrip_c0 url0);
          (scheme, url2) = split_scheme url1;
          has_netloc = (take 2 url2 = ''//'');
          (netloc, url3) = (if has_netloc then splitnetloc url2 2 else ('''', url2))
      in if has_netloc \<and>
            ((CHR ''['' \<in> set netloc \<and> CHR '']'' \<notin> set netloc) \<or>
             (CHR '']'' \<in> set netloc \<and> CHR ''['' \<notin> set netloc))
         then None
         else if has_netloc \<and> CHR ''['' \<in> set netloc \<and> CHR '']'' \<in> set netloc
                 \<and> \<not> check_bracketed_host lib (bracketed_host netloc)
         then None
         else
           (let (url4, fragment) = (if CHR ''#'' \<in> set url3 then split1 url3 CHR ''#''
                                    else (url3, ''''));
                (url5, query) = (if CHR ''?'' \<in> set url4 then split1 url4 CHR ''?''
                                 else (url4, ''''))
            in if \<not> checknetloc lib netloc then None
               else Some \<lparr>sr_scheme = scheme, sr_netloc = netloc, sr_path = url5,
                          sr_query = query, sr_fragment = fragment\<rparr>))"

record parse_result =
  scheme :: string
  netloc :: string
  path :: string
  params :: string
  query :: string
  fragment :: string

definition urlparse :: "urllib \<Rightarrow> string \<Rightarrow> parse_result option" where
  "urlparse lib url0 =
     (case urlsplit lib url0 of
        None \<Rightarrow> None
      | Some sr \<Rightarrow>
          (let (url1, ps) = (if sr_scheme sr \<in> set uses_params \<and> CHR '';'' \<in> set (sr_path sr)
                             then splitparams (sr_path sr) else (sr_path sr, ''''))
           in Some \<lparr>scheme = sr_scheme sr, netloc = sr_netloc sr, path = url1, params = ps,
                     query = sr_query sr, fragment = sr_fragment sr\<rparr>))"


section \<open>URL normalisation and domain scoping (\<open>crawler.py\<close>)\<close>

definition normalize_url :: "urllib \<Rightarrow> string \<Rightarrow> string" where
  \<comment> \<open>\<open>WebsiteCrawler._normalize_url\<close>; the \<open>except\<close> branch returns the argument\<close>
  "normalize_url lib url0 =
     (case urlparse lib url0 of
        None \<Rightarrow> url0
      | Some parsed \<Rightarrow>
          (let normalized = scheme parsed @ ''://'' @ netloc parsed @ path parsed
           in if endswith normalized ''/'' \<and> length (path parsed) > 1
              then butlast normalized
              else normalized))"


section \<open>Values of the fetch result\<close>

text \<open>
  The link data of a fetch result is untyped in the source, which inspects it with
  \<open>isinstance\<close>. \<open>pyval\<close> is the part of Python's values that those tests tell apart. A
  dictionary is the list of its items in insertion order; its keys are strings.
\<close>

datatype pyval =
    PyNone
  | PyBool bool
  | PyInt int
  | PyStr string
  | PyList "pyval list"
  | PyDict "(string \<times> pyval) list"

fun truthy :: "pyval \<Rightarrow> bool" where
  "truthy PyNone = False"
| "truthy (PyBool b) = b"
| "truthy (PyInt i) = (i \<noteq> 0)"
| "truthy (PyStr s) = (s \<noteq> [])"
| "truthy (PyList l) = (l \<noteq> [])"
| "truthy (PyDict d) = (d \<noteq> [])"

text \<open>
  The result object of \<open>crawler.arun\<close> (the page fetcher), with the attributes that
  \<open>crawl_page\<close> reads. \<open>markdown\<close> and \<open>metadata\<close> may be \<open>None\<close>.
\<close>

record crawl_result =
  success :: bool
  markdown :: "string option"
  result_url :: string
  metadata :: "(string \<times> string) list option"
  result_links :: pyval

text \<open>An item of \<open>crawled_data\<close>: the dictionary with the keys url, content, title, depth.\<close>

record page =
  page_url :: string
  page_content :: string
  page_title :: string
  page_depth :: int

text \<open>
  The collaborators of a crawl: the URL library with its two checks, \<open>urljoin\<close> of the same
  library (\<open>None\<close> when it raises), and the page fetcher \<open>crawler.arun\<close> (\<open>None\<close> when it
  raises). Within one run no URL is fetched twice, so a function of the URL describes
  every fetcher.
\<close>

record env =
  lib :: urllib
  urljoin :: "string \<Rightarrow> pyval \<Rightarrow> string option"
  arun :: "string \<Rightarrow> crawl_result option"


section \<open>Link extraction (\<open>crawler.py\<close>)\<close>

fun append_links :: "pyval list \<Rightarrow> pyval list \<Rightarrow> pyval list" where
  \<comment> \<open>the loop \<open>for link in ...\<close> with its two branches, which the source writes three times\<close>
  "append_links links [] = links"
| "append_links links (link # rest) =
     append_links
       (case link of
          PyDict d \<Rightarrow> (case map_of d ''href'' of Some h \<Rightarrow> links @ [h] | None \<Rightarrow> links)
        | PyStr s \<Rightarrow> links @ [link]
        | _ \<Rightarrow> links)
       rest"

fun append_categories :: "pyval list \<Rightarrow> (string \<times> pyval) list \<Rightarrow> pyval list" where
  \<comment> \<open>the loop \<open>for key, value in result.links.items()\<close>\<close>
  "append_categories links [] = links"
| "append_categories links ((key, val) # rest) =
     append_categories
       (case val of
          PyList l \<Rightarrow> (if key \<noteq> ''internal'' then append_links links l else links)
        | _ \<Rightarrow> links)
       rest"

text \<open>
  The reading of one link entry that the claim on link extraction speaks of: a bare string
  is a link, a record with an \<open>href\<close> field gives the value of that field, and any other
  entry is not recognized.
\<close>

fun recognized_link :: "pyval \<Rightarrow> pyval option" where
  "recognized_link (PyStr s) = Some (PyStr s)"
| "recognized_link (PyDict d) = map_of d ''href''"
| "recognized_link _ = None"

definition extract_links_from_result :: "crawl_result \<Rightarrow> pyval list" where
  "extract_links_from_result result =
     (if \<not> truthy (result_links result) then []
      else case result_links result of
             PyDict d \<Rightarrow>
               (let links = (case map_of d ''internal'' of
                               Some (PyList links_list) \<Rightarrow> append_links [] links_list
                             | _ \<Rightarrow> [])
                in append_categories links d)
           | PyList l \<Rightarrow> append_links [] l
           | _ \<Rightarrow> [])"


section \<open>The crawler (\<open>crawler.py\<close>)\<close>

text \<open>
  The attributes of a \<open>WebsiteCrawler\<close>. \<open>fetched\<close> is not an attribute of the source: it
  records the effect of the run on the fetcher, the URLs passed to \<open>crawler.arun\<close> in the
  order of the calls.
\<close>

record crawler =
  base_url :: string
  max_depth :: int
  max_pages :: int
  visited_urls :: "string fset"
  crawled_data :: "page list"
  base_domain :: string
  indexed_count :: int
  fetched :: "string list"

definition init :: "env \<Rightarrow> string \<Rightarrow> int \<Rightarrow> int \<Rightarrow> crawler option" where
  \<comment> \<open>\<open>WebsiteCrawler.__init__\<close>; \<open>urlparse(base_url)\<close> may raise\<close>
  "init env b md mp =
     (case urlparse (lib env) b of
        None \<Rightarrow> None
      | Some parsed \<Rightarrow>
          Some \<lparr>base_url = b, max_depth = md, max_pages = mp, visited_urls = {||},
                crawled_data = [], base_domain = netloc parsed, indexed_count = 0,
                fetched = []\<rparr>)"

definition is_same_domain :: "env \<Rightarrow> crawler \<Rightarrow> string \<Rightarrow> bool" where
  "is_same_domain env self url0 =
     (case urlparse (lib env) url0 of
        None \<Rightarrow> False
      | Some parsed \<Rightarrow> netloc parsed = base_domain self)"

fun filter_internal :: "env \<Rightarrow> crawler \<Rightarrow> string \<Rightarrow> string list \<Rightarrow> pyval list \<Rightarrow> string list" where
  \<comment> \<open>the loop \<open>for link in raw_links\<close> of \<open>crawl_page\<close>; an exception skips the link\<close>
  "filter_internal env self url0 internal_links [] = internal_links"
| "filter_internal env self url0 internal_links (link # rest) =
     filter_internal env self url0
       (case urljoin env url0 link of
          None \<Rightarrow> internal_links
        | Some absolute_url \<Rightarrow>
            if is_same_domain env self absolute_url
            then (let normalized_link = normalize_url (lib env) absolute_url
                  in if normalized_link |\<notin>| visited_urls self
                     then internal_links @ [absolute_url]
                     else internal_links)
            else internal_links)
       rest"

definition page_of :: "crawl_result \<Rightarrow> string \<Rightarrow> int \<Rightarrow> page" where
  \<comment> \<open>the dictionary appended to \<open>crawled_data\<close>, for a result whose markdown is \<open>content\<close>\<close>
  "page_of result content d =
     \<lparr>page_url = result_url result,
      page_content = content,
      page_title = (case metadata result of
                      None \<Rightarrow> ''''
                    | Some md \<Rightarrow> (if md = [] then ''''
                                  else case map_of md ''title'' of None \<Rightarrow> '''' | Some t \<Rightarrow> t)),
      page_depth = d\<rparr>"

definition crawl_page :: "env \<Rightarrow> crawler \<Rightarrow> string \<Rightarrow> int \<Rightarrow> string list \<times> crawler" where
  "crawl_page env self url0 d =
     (if d > max_depth self \<or> int (fcard (visited_urls self)) \<ge> max_pages self
      then ([], self)
      else
        (let normalized_url = normalize_url (lib env) url0
         in if normalized_url |\<in>| visited_urls self then ([], self)
            else
              (let self1 = self\<lparr>visited_urls := finsert normalized_url (visited_urls self),
                                 fetched := fetched self @ [url0]\<rparr>
               in case arun env url0 of
                    None \<Rightarrow> ([], self1)
                  | Some result \<Rightarrow>
                      (case markdown result of
                         None \<Rightarrow> ([], self1)
                       | Some content \<Rightarrow>
                           if success result \<and> content \<noteq> []
                           then
                             (let self2 = self1\<lparr>crawled_data :=
                                                   crawled_data self1 @ [page_of result content d],
                                                 indexed_count := indexed_count self1 + 1\<rparr>;
                                  raw_links = extract_links_from_result result
                              in (filter_internal env self2 url0 [] raw_links, self2))
                           else ([], self1)))))"

definition enqueue_links ::
  "crawler \<Rightarrow> int \<Rightarrow> (string \<times> int) list \<Rightarrow> string list \<Rightarrow> (string \<times> int) list" where
  \<comment> \<open>the loop \<open>for link in discovered_links\<close> of \<open>crawl_website\<close>\<close>
  "enqueue_links self current_depth urls_to_crawl discovered_links =
     foldl (\<lambda>q link. if int (fcard (visited_urls self)) < max_pages self
                      then q @ [(link, current_depth + 1)] else q)
           urls_to_crawl discovered_links"

function crawl_loop :: "env \<Rightarrow> (string \<times> int) list \<Rightarrow> crawler \<Rightarrow> crawler" where
  \<comment> \<open>the \<open>while\<close> loop of \<open>crawl_website\<close>; the pause between two fetches has no effect on
      the state\<close>
  "crawl_loop env [] self = self"
| "crawl_loop env ((current_url, current_depth) # rest) self =
     (if \<not> int (fcard (visited_urls self)) < max_pages self then self
      else if current_depth > max_depth self then crawl_loop env rest self
      else (let (discovered_links, self') = crawl_page env self current_url current_depth
            in crawl_loop env (enqueue_links self' current_depth rest discovered_links) self'))"
  by pat_completeness auto

text \<open>
  The dictionary that \<open>crawl_website\<close> returns. \<open>urls_visited\<close> is \<open>list(self.visited_urls)\<close>,
  the elements of the set in an order that Python leaves open; the model keeps the set.
\<close>

datatype retval = Data "page list" | Count int | Urls "string fset"

definition crawl_website :: "env \<Rightarrow> crawler \<Rightarrow> (string \<times> retval) list \<times> crawler" where
  "crawl_website env self =
     (let self' = crawl_loop env [(base_url self, 0)] self
      in ([(''data'', Data (crawled_data self')),
           (''indexed_count'', Count (indexed_count self')),
           (''visited_count'', Count (int (fcard (visited_urls self')))),
           (''urls_visited'', Urls (visited_urls self'))],
          self'))"

text \<open>
  The value that \<open>crawl_website\<close> writes to the log as "Max depth reached", and does not
  return.
\<close>

definition max_depth_reached :: "crawler \<Rightarrow> int" where
  "max_depth_reached self =
     (if crawled_data self \<noteq> [] then Max (set (map page_depth (crawled_data self))) else 0)"


section \<open>The vector store of a session (\<open>vector_store.py\<close>)\<close>

text \<open>
  The storage directory is a map from the name of a session directory to its content:
  \<open>None\<close> when the directory is absent, \<open>Some None\<close> when it exists without a
  \<open>faiss_index\<close>, \<open>Some (Some i)\<close> when it holds the saved index \<open>i\<close>. The directory of a
  session is \<open>STORAGE_DIR / session_id\<close>, so the key is the session id.

  The index library and the file system are collaborators: building an index from the
  crawled pages, reading a saved index, searching an index and removing a directory tree
  may each raise, which is the result \<open>None\<close> (or \<open>Inl\<close> for the search).
\<close>

datatype error = ValueError string | LibraryError

type_synonym document = string

type_synonym 'i disk = "string \<rightharpoonup> 'i option"

record 'i store_env =
  from_documents :: "page list \<Rightarrow> 'i option"
  load_local :: "'i \<Rightarrow> 'i option"
  index_search :: "'i \<Rightarrow> string \<Rightarrow> int \<Rightarrow> error + document list"
  rmtree :: "string \<Rightarrow> 'i disk \<Rightarrow> 'i disk option"

record 'i vector_store_manager =
  session_id :: string
  vector_store :: "'i option"

definition new_manager :: "string \<Rightarrow> 'i vector_store_manager" where
  \<comment> \<open>\<open>VectorStoreManager.__init__\<close>\<close>
  "new_manager sid = \<lparr>session_id = sid, vector_store = None\<rparr>"

definition create_vector_store ::
  "'i store_env \<Rightarrow> 'i disk \<Rightarrow> 'i vector_store_manager \<Rightarrow> page list \<Rightarrow>
   (error + unit) \<times> 'i vector_store_manager \<times> 'i disk" where
  \<comment> \<open>the directory is made first; the index is saved when it has been built\<close>
  "create_vector_store se disk self crawled =
     (let disk1 = (case disk (session_id self) of
                     None \<Rightarrow> disk(session_id self \<mapsto> None)
                   | Some _ \<Rightarrow> disk)
      in case from_documents se crawled of
           None \<Rightarrow> (Inl LibraryError, self, disk1)
         | Some i \<Rightarrow> (Inr (), self\<lparr>vector_store := Some i\<rparr>,
                       disk1(session_id self \<mapsto> Some i)))"

definition load_vector_store ::
  "'i store_env \<Rightarrow> 'i disk \<Rightarrow> 'i vector_store_manager \<Rightarrow> bool \<times> 'i vector_store_manager" where
  "load_vector_store se disk self =
     (case disk (session_id self) of
        Some (Some saved) \<Rightarrow>
          (case load_local se saved of
             Some i \<Rightarrow> (True, self\<lparr>vector_store := Some i\<rparr>)
           | None \<Rightarrow> (False, self))
      | _ \<Rightarrow> (False, self))"

definition similarity_search ::
  "'i store_env \<Rightarrow> 'i disk \<Rightarrow> 'i vector_store_manager \<Rightarrow> string \<Rightarrow> int \<Rightarrow>
   (error + document list) \<times> 'i vector_store_manager" where
  "similarity_search se disk self q k =
     (case vector_store self of
        Some i \<Rightarrow> (index_search se i q k, self)
      | None \<Rightarrow>
          (let (found, self') = load_vector_store se disk self
           in if \<not> found
              then (Inl (ValueError (''No vector store found for session '' @ session_id self)),
                    self')
              else (case vector_store self' of
                      Some i \<Rightarrow> (index_search se i q k, self')
                    | None \<Rightarrow> (Inl LibraryError, self'))))"

definition delete_session :: "'i store_env \<Rightarrow> 'i disk \<Rightarrow> 'i vector_store_manager \<Rightarrow> 'i disk" where
  \<comment> \<open>\<open>VectorStoreManager.delete_session\<close>; an exception of \<open>rmtree\<close> is logged and dropped\<close>
  "delete_session se disk self =
     (case disk (session_id self) of
        None \<Rightarrow> disk
      | Some _ \<Rightarrow> (case rmtree se (session_id self) disk of
                     Some disk' \<Rightarrow> disk'
                   | None \<Rightarrow> disk))"


section \<open>Chat sessions (\<open>chat_service.py\<close>, \<open>main.py\<close>)\<close>

text \<open>
  Of a \<open>ChatSession\<close> only the vector store manager matters here; the language model, the
  memory and the chain are left out.
\<close>

record 'i chat_session =
  cs_session_id :: string
  vector_manager :: "'i vector_store_manager"

record 'i chat_manager =
  sessions :: "string \<rightharpoonup> 'i chat_session"

definition new_chat_manager :: "'i chat_manager" where
  "new_chat_manager = \<lparr>sessions = Map.empty\<rparr>"

definition get_or_create_session ::
  "'i chat_manager \<Rightarrow> string \<Rightarrow> 'i chat_session \<times> 'i chat_manager" where
  "get_or_create_session self sid =
     (case sessions self sid of
        Some s \<Rightarrow> (s, self)
      | None \<Rightarrow> (let s = \<lparr>cs_session_id = sid, vector_manager = new_manager sid\<rparr>
                 in (s, self\<lparr>sessions := (sessions self)(sid \<mapsto> s)\<rparr>)))"

definition chat_manager_delete_session ::
  "'i store_env \<Rightarrow> 'i chat_manager \<times> 'i disk \<Rightarrow> string \<Rightarrow> 'i chat_manager \<times> 'i disk" where
  \<comment> \<open>\<open>ChatManager.delete_session\<close>, which the endpoint \<open>DELETE /session/{session_id}\<close> calls\<close>
  "chat_manager_delete_session se st sid =
     (case sessions (fst st) sid of
        Some session \<Rightarrow>
          (let disk' = delete_session se (snd st) (vector_manager session)
           in ((fst st)\<lparr>sessions := (sessions (fst st))(sid := None)\<rparr>, disk'))
      | None \<Rightarrow> st)"

text \<open>
  The part of the endpoint \<open>POST /crawl\<close> that follows a crawl with at least one page: a
  fresh vector store manager for the new session id builds and saves the index. The chat
  manager is not touched.
\<close>

definition crawl_endpoint_store ::
  "'i store_env \<Rightarrow> 'i chat_manager \<times> 'i disk \<Rightarrow> string \<Rightarrow> page list \<Rightarrow>
   (error + unit) \<times> 'i chat_manager \<times> 'i disk" where
  "crawl_endpoint_store se st sid crawled =
     (let (r, vm, disk') = create_vector_store se (snd st) (new_manager sid) crawled
      in (r, fst st, disk'))"


section \<open>Test fixtures\<close>

text \<open>
  A store whose collaborators always succeed: the index of a list of pages is their
  number, a saved index loads as it is, a search on the index \<open>i\<close> answers with
  \<open>min i k\<close> copies of the query, and \<open>rmtree\<close> removes the directory.
\<close>

definition demo_store :: "nat store_env" where
  "demo_store = \<lparr>from_documents = (\<lambda>ps. Some (length ps)), load_local = Some,
                 index_search = (\<lambda>i q k. Inr (replicate (min i (nat k)) q)),
                 rmtree = (\<lambda>sid d. Some (d(sid := None)))\<rparr>"

definition demo_page :: page where
  "demo_page = \<lparr>page_url = ''https://a.com/'', page_content = ''text'',
                page_title = ''A'', page_depth = 0\<rparr>"

text \<open>
  A URL library whose two table checks always pass, and the site of three pages
  A = \<open>https://a.com/\<close>, B = \<open>https://a.com/b\<close>, C = \<open>https://a.com/c\<close> in which A links to
  B and C, and B links to C. The links are absolute URLs, which \<open>urljoin\<close> returns as they
  are. \<open>abc_crawler\<close> is the crawler that \<open>init\<close> builds for A with \<open>max_depth = 2\<close> and
  \<open>max_pages = 10\<close>.
\<close>

definition lib0 :: urllib where
  "lib0 = \<lparr>check_bracketed_host = (\<lambda>_. True), nfkc_ok = (\<lambda>_. True)\<rparr>"

definition site_page :: "string \<Rightarrow> string list \<Rightarrow> crawl_result" where
  "site_page u ls =
     \<lparr>success = True, markdown = Some ''text'', result_url = u,
      metadata = Some [(''title'', ''T'')],
      result_links = PyDict [(''internal'', PyList (map (\<lambda>l. PyDict [(''href'', PyStr l)]) ls))]\<rparr>"

definition abc_site :: env where
  "abc_site =
     \<lparr>lib = lib0,
      urljoin = (\<lambda>base link. case link of PyStr s \<Rightarrow> Some s | _ \<Rightarrow> None),
      arun = (\<lambda>u. if u = ''https://a.com/''
                   then Some (site_page u [''https://a.com/b'', ''https://a.com/c''])
                   else if u = ''https://a.com/b'' then Some (site_page u [''https://a.com/c''])
                   else if u = ''https://a.com/c'' then Some (site_page u [])
                   else None)\<rparr>"

definition abc_crawler :: crawler where
  "abc_crawler =
     \<lparr>base_url = ''https://a.com/'', max_depth = 2, max_pages = 10, visited_urls = {||},
      crawled_data = [], base_domain = ''a.com'', indexed_count = 0, fetched = []\<rparr>"

text \<open>The same site when the fetch of B raises.\<close>

definition abc_site_b_down :: env where
  "abc_site_b_down =
     abc_site\<lparr>arun := (\<lambda>u. if u = ''https://a.com/b'' then None else arun abc_site u)\<rparr>"

text \<open>
  A site with link cycles: A = \<open>https://a.com/\<close> links to itself and to
  B = \<open>https://a.com/b\<close>, and B links back to A and to itself.
\<close>

definition loop_site :: env where
  "loop_site =
     abc_site\<lparr>arun := (\<lambda>u. if u = ''https://a.com/''
                            then Some (site_page u [''https://a.com/'', ''https://a.com/b''])
                            else if u = ''https://a.com/b''
                            then Some (site_page u [''https://a.com/'', ''https://a.com/b''])
                            else None)\<rparr>"

text \<open>
  A fetch result whose link data mixes the shapes: two categories of links, with bare
  strings, records with and without \<open>href\<close> and a number, and a category that is not a list.
\<close>

definition mixed_links :: crawl_result where
  "mixed_links =
     \<lparr>success = True, markdown = Some ''text'', result_url = ''https://a.com/'',
      metadata = None,
      result_links =
        PyDict [(''external'', PyList [PyStr ''https://b.com/'', PyInt 3]),
                (''internal'', PyList [PyDict [(''href'', PyStr ''/b''), (''text'', PyStr ''B'')],
                                       PyStr ''/c'', PyDict [(''text'', PyStr ''no link'')]]),
                (''count'', PyInt 2)]\<rparr>"


section \<open>Termination of the crawl\<close>

lemma crawl_page_budget:
  "crawl_page env self u d = (ls, self') \<Longrightarrow>
     max_pages self' = max_pages self \<and> max_depth self' = max_depth self \<and>
     ((self' = self \<and> ls = []) \<or>
      (int (fcard (visited_urls self)) < max_pages self \<and>
       fcard (visited_urls self') = Suc (fcard (visited_urls self))))"
  by (auto simp: crawl_page_def Let_def fcard_finsert_disjoint
           split: if_splits option.splits)

lemma enqueue_links_Nil [simp]: "enqueue_links self d q [] = q"
  by (simp add: enqueue_links_def)

termination crawl_loop
proof (relation "measures [\<lambda>(env, q, self). nat (max_pages self - int (fcard (visited_urls self))),
                           \<lambda>(env, q, self). length q]", goal_cases)
  case 1
  show ?case by simp
next
  case (2 env current_url current_depth rest self)
  then show ?case by simp
next
  case (3 env current_url current_depth rest self x discovered_links self')
  from 3(3,4) have "crawl_page env self current_url current_depth = (discovered_links, self')"
    by simp
  from crawl_page_budget[OF this] 3(1) show ?case
    by auto
qed

declare crawl_loop.simps [simp del]

lemma crawl_website_snd: "snd (crawl_website env c) = crawl_loop env [(base_url c, 0)] c"
  by (simp add: crawl_website_def Let_def)

lemma crawl_website_fst:
  "fst (crawl_website env c) =
     [(''data'', Data (crawled_data (snd (crawl_website env c)))),
      (''indexed_count'', Count (indexed_count (snd (crawl_website env c)))),
      (''visited_count'', Count (int (fcard (visited_urls (snd (crawl_website env c)))))),
      (''urls_visited'', Urls (visited_urls (snd (crawl_website env c))))]"
  by (simp add: crawl_website_def Let_def)


section \<open>The steps of the crawl\<close>

lemma crawl_page_cases:
  assumes "crawl_page env self u d = (ls, self')"
  shows "(self' = self \<and> ls = []) \<or>
         (d \<le> max_depth self \<and> int (fcard (visited_urls self)) < max_pages self \<and>
          normalize_url (lib env) u |\<notin>| visited_urls self \<and>
          ((ls = [] \<and>
            self' = self\<lparr>visited_urls := finsert (normalize_url (lib env) u) (visited_urls self),
                          fetched := fetched self @ [u]\<rparr>) \<or>
           (\<exists>r content. arun env u = Some r \<and> markdown r = Some content \<and> success r \<and> content \<noteq> [] \<and>
            self' = self\<lparr>visited_urls := finsert (normalize_url (lib env) u) (visited_urls self),
                          fetched := fetched self @ [u],
                          crawled_data := crawled_data self @ [page_of r content d],
                          indexed_count := indexed_count self + 1\<rparr> \<and>
            ls = filter_internal env self' u [] (extract_links_from_result r))))"
  using assms
  by (auto simp: crawl_page_def Let_def split: if_splits option.splits)

lemma crawl_loop_invariant:
  assumes init: "P self"
    and step: "\<And>self u d ls self'. P self \<Longrightarrow> crawl_page env self u d = (ls, self') \<Longrightarrow> P self'"
  shows "P (crawl_loop env q self)"
  using init step
proof (induction env q self rule: crawl_loop.induct)
  case (1 env self)
  then show ?case by (simp add: crawl_loop.simps)
next
  case (2 env current_url current_depth rest self)
  note step = 2(4)
  show ?case
  proof (cases "int (fcard (visited_urls self)) < max_pages self")
    case False
    then show ?thesis using 2(3) by (simp add: crawl_loop.simps)
  next
    case budget: True
    show ?thesis
    proof (cases "current_depth > max_depth self")
      case True
      have "P (crawl_loop env rest self)"
        using 2(1) budget True 2(3) step by blast
      then show ?thesis using budget True by (simp add: crawl_loop.simps)
    next
      case False
      obtain ls self' where cp: "crawl_page env self current_url current_depth = (ls, self')"
        by (cases "crawl_page env self current_url current_depth") auto
      have P': "P self'" using step[OF 2(3) cp] .
      have "P (crawl_loop env (enqueue_links self' current_depth rest ls) self')"
        using 2(2)[OF _ False cp[symmetric] refl P'] budget step by blast
      then show ?thesis using budget False cp by (simp add: crawl_loop.simps)
    qed
  qed
qed


section \<open>The run on the site of three pages\<close>

lemma abc_parse_base:
  "urlparse lib0 ''https://a.com/'' =
     Some \<lparr>scheme = ''https'', netloc = ''a.com'', path = ''/'', params = '''', query = '''',
            fragment = ''''\<rparr>"
  by code_simp

lemma abc_init: "init abc_site ''https://a.com/'' 2 10 = Some abc_crawler"
  by (simp add: init_def abc_crawler_def abc_site_def abc_parse_base)

lemma abc_b_down_init: "init abc_site_b_down ''https://a.com/'' 2 10 = Some abc_crawler"
  by (simp add: init_def abc_crawler_def abc_site_def abc_site_b_down_def abc_parse_base)

lemma abc_run:
  "crawl_loop abc_site [(''https://a.com/'', 0)] abc_crawler =
     \<lparr>base_url = ''https://a.com/'', max_depth = 2, max_pages = 10,
      visited_urls = {|''https://a.com/c'', ''https://a.com/b'', ''https://a.com/''|},
      crawled_data =
        [\<lparr>page_url = ''https://a.com/'', page_content = ''text'', page_title = ''T'', page_depth = 0\<rparr>,
         \<lparr>page_url = ''https://a.com/b'', page_content = ''text'', page_title = ''T'', page_depth = 1\<rparr>,
         \<lparr>page_url = ''https://a.com/c'', page_content = ''text'', page_title = ''T'', page_depth = 1\<rparr>],
      base_domain = ''a.com'', indexed_count = 3,
      fetched = [''https://a.com/'', ''https://a.com/b'', ''https://a.com/c'']\<rparr>"
  unfolding abc_crawler_def by code_simp

lemma abc_b_down_run:
  "crawl_loop abc_site_b_down [(''https://a.com/'', 0)] abc_crawler =
     \<lparr>base_url = ''https://a.com/'', max_depth = 2, max_pages = 10,
      visited_urls = {|''https://a.com/c'', ''https://a.com/b'', ''https://a.com/''|},
      crawled_data =
        [\<lparr>page_url = ''https://a.com/'', page_content = ''text'', page_title = ''T'', page_depth = 0\<rparr>,
         \<lparr>page_url = ''https://a.com/c'', page_content = ''text'', page_title = ''T'', page_depth = 1\<rparr>],
      base_domain = ''a.com'', indexed_count = 2,
      fetched = [''https://a.com/'', ''https://a.com/b'', ''https://a.com/c'']\<rparr>"
  unfolding abc_crawler_def by code_simp

lemma crawl_page_keeps_budget_invariant:
  assumes "max_pages self = mp \<and> max_depth self = md \<and>
           int (length (crawled_data self)) \<le> int (fcard (visited_urls self)) \<and>
           int (fcard (visited_urls self)) \<le> mp \<and>
           (\<forall>p \<in> set (crawled_data self). page_depth p \<le> md)"
    and "crawl_page env self u d = (ls, self')"
  shows "max_pages self' = mp \<and> max_depth self' = md \<and>
         int (length (crawled_data self')) \<le> int (fcard (visited_urls self')) \<and>
         int (fcard (visited_urls self')) \<le> mp \<and>
         (\<forall>p \<in> set (crawled_data self'). page_depth p \<le> md)"
  using crawl_page_cases[OF assms(2)] assms(1)
  by (auto simp: fcard_finsert_disjoint page_of_def)

lemma crawl_page_keeps_fetched_invariant:
  assumes inv: "distinct (map (normalize_url (lib env)) (fetched self)) \<and>
           set (map (normalize_url (lib env)) (fetched self)) = fset (visited_urls self)"
    and cp: "crawl_page env self u d = (ls, self')"
  shows "distinct (map (normalize_url (lib env)) (fetched self')) \<and>
         set (map (normalize_url (lib env)) (fetched self')) = fset (visited_urls self')"
proof -
  let ?n = "normalize_url (lib env)"
  have new: "?n u |\<notin>| visited_urls self \<Longrightarrow> ?n u \<notin> set (map ?n (fetched self))"
    using inv by simp
  have grow: "?n u |\<notin>| visited_urls self \<Longrightarrow>
      distinct (map ?n (fetched self @ [u])) \<and>
      set (map ?n (fetched self @ [u])) = fset (finsert (?n u) (visited_urls self))"
    using inv new by auto
  from crawl_page_cases[OF cp] show ?thesis
    using inv grow by (elim disjE conjE exE) simp_all
qed

lemma crawl_page_keeps_count_invariant:
  assumes "indexed_count self = int (length (crawled_data self))"
    and "crawl_page env self u d = (ls, self')"
  shows "indexed_count self' = int (length (crawled_data self'))"
  using crawl_page_cases[OF assms(2)] assms(1)
  by auto

lemma abc_crawler_fields [simp]:
  "base_url abc_crawler = ''https://a.com/''" "max_depth abc_crawler = 2"
  "max_pages abc_crawler = 10" "visited_urls abc_crawler = {||}" "crawled_data abc_crawler = []"
  "indexed_count abc_crawler = 0" "fetched abc_crawler = []"
  by (simp_all add: abc_crawler_def)

lemma init_fields:
  "init env b md mp = Some c \<Longrightarrow>
     base_url c = b \<and> max_depth c = md \<and> max_pages c = mp \<and> visited_urls c = {||} \<and>
     crawled_data c = [] \<and> indexed_count c = 0 \<and> fetched c = []"
  by (auto simp: init_def split: option.splits)

lemma filter_internal_not_visited:
  "\<forall>l \<in> set acc. normalize_url (lib env) l |\<notin>| visited_urls self \<Longrightarrow>
   \<forall>l \<in> set (filter_internal env self u acc raw). normalize_url (lib env) l |\<notin>| visited_urls self"
proof (induction raw arbitrary: acc)
  case Nil
  then show ?case by simp
next
  case (Cons link raw)
  let ?acc' = "case urljoin env u link of
                 None \<Rightarrow> acc
               | Some absolute_url \<Rightarrow>
                   if is_same_domain env self absolute_url
                   then (let normalized_link = normalize_url (lib env) absolute_url
                         in if normalized_link |\<notin>| visited_urls self
                            then acc @ [absolute_url] else acc)
                   else acc"
  have "\<forall>l \<in> set ?acc'. normalize_url (lib env) l |\<notin>| visited_urls self"
    using Cons.prems by (auto simp: Let_def split: option.splits)
  from Cons.IH[OF this] show ?case by simp
qed

lemma crawl_page_links_not_visited:
  assumes "crawl_page env self u d = (ls, self')"
  shows "\<forall>l \<in> set ls. normalize_url (lib env) l |\<notin>| visited_urls self'"
  using crawl_page_cases[OF assms] filter_internal_not_visited[of "[]" env self' u]
  by auto

lemma loop_run:
  "crawl_loop loop_site [(''https://a.com/'', 0)] abc_crawler =
     \<lparr>base_url = ''https://a.com/'', max_depth = 2, max_pages = 10,
      visited_urls = {|''https://a.com/b'', ''https://a.com/''|},
      crawled_data =
        [\<lparr>page_url = ''https://a.com/'', page_content = ''text'', page_title = ''T'', page_depth = 0\<rparr>,
         \<lparr>page_url = ''https://a.com/b'', page_content = ''text'', page_title = ''T'', page_depth = 1\<rparr>],
      base_domain = ''a.com'', indexed_count = 2,
      fetched = [''https://a.com/'', ''https://a.com/b'']\<rparr>"
  unfolding abc_crawler_def by code_simp

lemma loop_init: "init loop_site ''https://a.com/'' 2 10 = Some abc_crawler"
  by (simp add: init_def abc_crawler_def abc_site_def loop_site_def abc_parse_base)

lemma abc_normalize:
  "normalize_url lib0 ''https://a.com/'' = ''https://a.com/''"
  "normalize_url lib0 ''https://a.com/b'' = ''https://a.com/b''"
  "normalize_url lib0 ''https://a.com/c'' = ''https://a.com/c''"
  by code_simp+

lemma lib_sites [simp]:
  "lib abc_site = lib0" "lib abc_site_b_down = lib0" "lib loop_site = lib0"
  by (simp_all add: abc_site_def abc_site_b_down_def loop_site_def)

lemma loop_first_page:
  "crawl_page loop_site abc_crawler ''https://a.com/'' 0 =
     ([''https://a.com/b''],
      \<lparr>base_url = ''https://a.com/'', max_depth = 2, max_pages = 10,
       visited_urls = {|''https://a.com/''|},
       crawled_data =
         [\<lparr>page_url = ''https://a.com/'', page_content = ''text'', page_title = ''T'', page_depth = 0\<rparr>],
       base_domain = ''a.com'', indexed_count = 1,
       fetched = [''https://a.com/'']\<rparr>)"
  unfolding abc_crawler_def by code_simp

lemma b_down_rest:
  "crawl_loop abc_site_b_down [(''https://a.com/c'', 1)]
     (abc_crawler\<lparr>visited_urls := {|''https://a.com/b''|}, fetched := [''https://a.com/b'']\<rparr>) =
     \<lparr>base_url = ''https://a.com/'', max_depth = 2, max_pages = 10,
      visited_urls = {|''https://a.com/c'', ''https://a.com/b''|},
      crawled_data =
        [\<lparr>page_url = ''https://a.com/c'', page_content = ''text'', page_title = ''T'', page_depth = 1\<rparr>],
      base_domain = ''a.com'', indexed_count = 1,
      fetched = [''https://a.com/b'', ''https://a.com/c'']\<rparr>"
  unfolding abc_crawler_def by code_simp


section \<open>Link extraction\<close>

lemma append_links_eq: "append_links acc l = acc @ List.map_filter recognized_link l"
proof (induction l arbitrary: acc)
  case Nil
  then show ?case by (simp add: List.map_filter_simps)
next
  case (Cons e l)
  show ?case
    by (cases e) (simp_all add: Cons.IH List.map_filter_simps split: option.splits)
qed

lemma append_categories_eq:
  "append_categories acc d =
     acc @ concat (map (\<lambda>(k, v). case v of
                          PyList l \<Rightarrow> if k \<noteq> ''internal'' then List.map_filter recognized_link l else []
                        | _ \<Rightarrow> []) d)"
proof (induction d arbitrary: acc)
  case Nil
  then show ?case by simp
next
  case (Cons kv d)
  obtain k v where kv: "kv = (k, v)" by (cases kv)
  show ?case unfolding kv
    by (cases v) (simp_all add: Cons.IH append_links_eq)
qed

lemma others_without_internal:
  "''internal'' \<notin> fst ` set d \<Longrightarrow>
   map (\<lambda>(k, v). case v of
          PyList l \<Rightarrow> if k \<noteq> ''internal'' then List.map_filter recognized_link l else []
        | _ \<Rightarrow> []) d
   = map (\<lambda>(k, v). case v of PyList l \<Rightarrow> List.map_filter recognized_link l | _ \<Rightarrow> []) d"
  by (induction d) (auto split: pyval.splits)

lemma categories_mset:
  "distinct (map fst d) \<Longrightarrow>
   mset (case map_of d ''internal'' of
           Some (PyList l) \<Rightarrow> List.map_filter recognized_link l
         | _ \<Rightarrow> [])
   + mset (concat (map (\<lambda>(k, v). case v of
                          PyList l \<Rightarrow> if k \<noteq> ''internal'' then List.map_filter recognized_link l else []
                        | _ \<Rightarrow> []) d))
   = mset (concat (map (\<lambda>(k, v). case v of PyList l \<Rightarrow> List.map_filter recognized_link l | _ \<Rightarrow> []) d))"
proof (induction d)
  case Nil
  then show ?case by simp
next
  case (Cons kv d)
  obtain k v where kv: "kv = (k, v)" by (cases kv)
  show ?case
  proof (cases "k = ''internal''")
    case True
    with Cons.prems kv have no: "''internal'' \<notin> fst ` set d" by auto
    have none: "map_of d ''internal'' = None" using no by (simp add: map_of_eq_None_iff)
    note same = others_without_internal[OF no]
    show ?thesis unfolding kv True
      by (cases v) (simp_all add: none same)
  next
    case False
    from Cons.prems have "distinct (map fst d)" by simp
    from Cons.IH[OF this] show ?thesis using False kv
      by (cases v) (simp_all add: ac_simps)
  qed
qed

lemma mixed_links_extracted:
  "extract_links_from_result mixed_links = [PyStr ''/b'', PyStr ''/c'', PyStr ''https://b.com/'']"
  by code_simp


section \<open>The order of the crawl\<close>

lemma enqueue_links_eq:
  "enqueue_links self d q ls =
     (if int (fcard (visited_urls self)) < max_pages self then q @ map (\<lambda>l. (l, d + 1)) ls else q)"
proof -
  have "foldl (\<lambda>q link. if b then q @ [(link, d + 1)] else q) q ls
        = (if b then q @ map (\<lambda>l. (l, d + 1)) ls else q)" for b
    by (induction ls arbitrary: q) auto
  then show ?thesis by (simp add: enqueue_links_def)
qed

lemma crawl_page_depths:
  assumes "crawl_page env self u d = (ls, self')"
  shows "crawled_data self' = crawled_data self \<and> ls = [] \<or>
         (\<exists>p. crawled_data self' = crawled_data self @ [p] \<and> page_depth p = d)"
  using crawl_page_cases[OF assms] by (auto simp: page_of_def)

lemma crawl_loop_sorted:
  assumes "sorted (map page_depth (crawled_data self))"
    and "sorted (map snd q)"
    and "\<forall>p \<in> set (crawled_data self). \<forall>e \<in> set q. page_depth p \<le> snd e"
    and "\<forall>e \<in> set q. \<forall>e' \<in> set q. snd e \<le> snd e' + 1"
  shows "sorted (map page_depth (crawled_data (crawl_loop env q self)))"
  using assms
proof (induction env q self rule: crawl_loop.induct)
  case (1 env self)
  then show ?case by (simp add: crawl_loop.simps)
next
  case (2 env u d rest self)
  note inv = 2(3-6)
  show ?case
  proof (cases "int (fcard (visited_urls self)) < max_pages self")
    case False
    then show ?thesis using inv by (simp add: crawl_loop.simps)
  next
    case budget: True
    have rest_inv: "sorted (map snd rest)"
      "\<forall>p \<in> set (crawled_data self). \<forall>e \<in> set rest. page_depth p \<le> snd e"
      "\<forall>e \<in> set rest. \<forall>e' \<in> set rest. snd e \<le> snd e' + 1"
      using inv by auto
    show ?thesis
    proof (cases "d > max_depth self")
      case True
      have "sorted (map page_depth (crawled_data (crawl_loop env rest self)))"
        using 2(1) budget True inv(1) rest_inv by blast
      then show ?thesis using budget True by (simp add: crawl_loop.simps)
    next
      case False
      obtain ls self' where cp: "crawl_page env self u d = (ls, self')"
        by (cases "crawl_page env self u d") auto
      let ?q' = "enqueue_links self' d rest ls"
      have low: "\<forall>e \<in> set rest. d \<le> snd e" using inv(2) by auto
      have high: "\<forall>e \<in> set rest. snd e \<le> d + 1" using inv(4) by auto
      have old: "\<forall>p \<in> set (crawled_data self). page_depth p \<le> d" using inv(3) by auto
      have q'_set: "set ?q' \<subseteq> set rest \<union> {e. snd e = d + 1}"
        by (auto simp: enqueue_links_eq)
      have s1: "sorted (map page_depth (crawled_data self'))"
        using crawl_page_depths[OF cp] inv(1) old by (auto simp: sorted_append)
      have const: "sorted (map (\<lambda>l. d + 1) ls)"
        by (induction ls) auto
      have s2: "sorted (map snd ?q')"
        using rest_inv(1) high const by (auto simp: enqueue_links_eq sorted_append comp_def)
      have s3: "\<forall>p \<in> set (crawled_data self'). \<forall>e \<in> set ?q'. page_depth p \<le> snd e"
      proof (intro ballI)
        fix p e assume p: "p \<in> set (crawled_data self')" and e: "e \<in> set ?q'"
        have pd: "page_depth p \<le> d" using crawl_page_depths[OF cp] p old by auto
        have "d \<le> snd e" using e q'_set low by auto
        with pd show "page_depth p \<le> snd e" by simp
      qed
      have s4: "\<forall>e \<in> set ?q'. \<forall>e' \<in> set ?q'. snd e \<le> snd e' + 1"
      proof (intro ballI)
        fix e e' assume e: "e \<in> set ?q'" and e': "e' \<in> set ?q'"
        have "snd e \<le> d + 1" using e q'_set high by auto
        moreover have "d \<le> snd e'" using e' q'_set low by auto
        ultimately show "snd e \<le> snd e' + 1" by simp
      qed
      have "sorted (map page_depth (crawled_data (crawl_loop env ?q' self')))"
        using 2(2)[OF _ False cp[symmetric] refl s1 s2 s3 s4] budget by blast
      then show ?thesis using budget False cp by (simp add: crawl_loop.simps)
    qed
  qed
qed

section \<open>Facts about the URL parser\<close>

lemma py_find_in:
  "c \<in> set s \<Longrightarrow> py_find s c 0 = int (length (takeWhile (\<lambda>x. x \<noteq> c) s))"
  by (simp add: py_find_def)

lemma py_find_notin: "c \<notin> set s \<Longrightarrow> py_find s c 0 = - 1"
  by (simp add: py_find_def)

lemma slice_to_find:
  "c \<in> set s \<Longrightarrow> slice_to s (py_find s c 0) = takeWhile (\<lambda>x. x \<noteq> c) s"
  by (simp add: py_find_in slice_to_def takeWhile_eq_take[symmetric])

lemma slice_from_find:
  "c \<in> set s \<Longrightarrow> slice_from s (py_find s c 0 + 1) = drop 1 (dropWhile (\<lambda>x. x \<noteq> c) s)"
proof -
  assume "c \<in> set s"
  then have "slice_from s (py_find s c 0 + 1) = drop (Suc (length (takeWhile (\<lambda>x. x \<noteq> c) s))) s"
    by (simp add: py_find_in slice_from_def nat_add_distrib)
  also have "\<dots> = drop 1 (drop (length (takeWhile (\<lambda>x. x \<noteq> c) s)) s)"
    by simp
  also have "\<dots> = drop 1 (dropWhile (\<lambda>x. x \<noteq> c) s)"
    by (simp only: dropWhile_eq_drop)
  finally show ?thesis .
qed

lemma split_scheme_eq:
  "split_scheme x =
     (if CHR '':'' \<in> set x \<and> takeWhile (\<lambda>c. c \<noteq> CHR '':'') x \<noteq> [] \<and>
         isascii (hd x) \<and> isalpha (hd x) \<and>
         set (takeWhile (\<lambda>c. c \<noteq> CHR '':'') x) \<subseteq> set scheme_chars
      then (map lower (takeWhile (\<lambda>c. c \<noteq> CHR '':'') x),
            drop 1 (dropWhile (\<lambda>c. c \<noteq> CHR '':'') x))
      else ('''', x))"
proof (cases "CHR '':'' \<in> set x")
  case False
  then show ?thesis by (simp add: split_scheme_def py_find_notin)
next
  case True
  have hd: "(case x of [] \<Rightarrow> False | c # _ \<Rightarrow> isascii c \<and> isalpha c)
            = (x \<noteq> [] \<and> isascii (hd x) \<and> isalpha (hd x))"
    by (cases x) auto
  have pos: "(0 < py_find x CHR '':'' 0) = (takeWhile (\<lambda>c. c \<noteq> CHR '':'') x \<noteq> [])"
    using True by (simp add: py_find_in)
  have ne: "takeWhile (\<lambda>c. c \<noteq> CHR '':'') x \<noteq> [] \<Longrightarrow> x \<noteq> []" by auto
  show ?thesis
    using True ne
    by (auto simp: split_scheme_def Let_def slice_to_find slice_from_find hd pos
             simp del: takeWhile_eq_Nil_iff)
qed

lemma py_find_from:
  "py_find s c n = (if c \<in> set (drop n s) then int (n + length (takeWhile (\<lambda>x. x \<noteq> c) (drop n s))) else - 1)"
  by (simp add: py_find_def)

lemma takeWhile_three:
  "length (takeWhile (\<lambda>x. x \<noteq> a \<and> x \<noteq> b \<and> x \<noteq> c) z)
   = min (min (min (length z) (length (takeWhile (\<lambda>x. x \<noteq> a) z)))
              (length (takeWhile (\<lambda>x. x \<noteq> b) z)))
         (length (takeWhile (\<lambda>x. x \<noteq> c) z))"
  by (induction z) auto

lemma takeWhile_absent: "c \<notin> set z \<Longrightarrow> takeWhile (\<lambda>x. x \<noteq> c) z = z"
  by (induction z) auto

lemma delim_step:
  assumes "m \<le> length (drop n y)"
  shows "(let wdelim = py_find y c n in if wdelim \<ge> 0 then min (int (n + m)) wdelim else int (n + m))
         = int (n + min m (length (takeWhile (\<lambda>x. x \<noteq> c) (drop n y))))"
proof (cases "c \<in> set (drop n y)")
  case True
  then show ?thesis by (simp add: py_find_from Let_def min_def)
next
  case False
  then have "length (takeWhile (\<lambda>x. x \<noteq> c) (drop n y)) = length (drop n y)"
    by (simp add: takeWhile_absent)
  with assms False show ?thesis by (simp add: py_find_from Let_def)
qed

lemma splitnetloc_eq:
  assumes "n \<le> length y"
  shows "splitnetloc y n =
     (takeWhile (\<lambda>x. x \<noteq> CHR ''/'' \<and> x \<noteq> CHR ''?'' \<and> x \<noteq> CHR ''#'') (drop n y),
      dropWhile (\<lambda>x. x \<noteq> CHR ''/'' \<and> x \<noteq> CHR ''?'' \<and> x \<noteq> CHR ''#'') (drop n y))"
proof -
  let ?z = "drop n y"
  let ?P = "\<lambda>x. x \<noteq> CHR ''/'' \<and> x \<noteq> CHR ''?'' \<and> x \<noteq> CHR ''#''"
  let ?l = "\<lambda>c. length (takeWhile (\<lambda>x. x \<noteq> c) ?z)"
  let ?f = "\<lambda>delim c. let wdelim = py_find y c n
                        in if wdelim \<ge> 0 then min delim wdelim else delim"
  let ?m1 = "min (length ?z) (?l CHR ''/'')"
  let ?m2 = "min ?m1 (?l CHR ''?'')"
  let ?m3 = "min ?m2 (?l CHR ''#'')"
  have len: "int (length y) = int (n + length ?z)" using assms by simp
  have s1: "?f (int (n + length ?z)) CHR ''/'' = int (n + ?m1)"
    by (rule delim_step) simp
  have s2: "?f (int (n + ?m1)) CHR ''?'' = int (n + ?m2)"
    by (rule delim_step) simp
  have s3: "?f (int (n + ?m2)) CHR ''#'' = int (n + ?m3)"
    by (rule delim_step) simp
  have "foldl ?f (int (length y)) ''/?#'' = ?f (?f (?f (int (n + length ?z)) CHR ''/'') CHR ''?'') CHR ''#''"
    by (simp only: len foldl.simps)
  also have "\<dots> = int (n + ?m3)" unfolding s1 s2 s3 ..
  also have "?m3 = length (takeWhile ?P ?z)" by (simp only: takeWhile_three)
  finally have delim: "foldl ?f (int (length y)) ''/?#'' = int (n + length (takeWhile ?P ?z))" .
  have t: "take (length (takeWhile ?P ?z)) ?z = takeWhile ?P ?z"
    by (simp add: takeWhile_eq_take[symmetric])
  have d: "drop (n + length (takeWhile ?P ?z)) y = dropWhile ?P ?z"
    by (simp add: dropWhile_eq_drop add.commute)
  have neg: "\<not> int (n + length (takeWhile ?P ?z)) < 0" by simp
  show ?thesis
    unfolding splitnetloc_def delim
    by (simp only: Let_def slice_from_def nat_int add_diff_cancel_left' t d neg if_False)
qed

lemma takeWhile_stop: "\<not> P y \<Longrightarrow> takeWhile P (xs @ y # ys) = takeWhile P xs"
  by (induction xs) auto

lemma dropWhile_stop: "\<not> P y \<Longrightarrow> dropWhile P (xs @ y # ys) = dropWhile P xs @ y # ys"
  by (induction xs) auto

lemma split1_stop: "c \<notin> set xs \<Longrightarrow> split1 (xs @ c # ys) c = (xs, ys)"
  unfolding split1_def by (induction xs) auto

lemma takeWhile_pass:
  "c \<notin> set xs \<Longrightarrow> takeWhile (\<lambda>x. x \<noteq> c) (xs @ ys) = xs @ takeWhile (\<lambda>x. x \<noteq> c) ys"
  by (induction xs) auto

lemma pre_fragment:
  "remove_unsafe (lstrip_c0 (u @ CHR ''#'' # f))
     = remove_unsafe (lstrip_c0 u) @ CHR ''#'' # remove_unsafe f"
proof -
  have "lstrip_c0 (u @ CHR ''#'' # f) = lstrip_c0 u @ CHR ''#'' # f"
    unfolding lstrip_c0_def by (induction u) auto
  then show ?thesis by (simp add: remove_unsafe_def)
qed

lemma pre_no_hash: "CHR ''#'' \<notin> set u \<Longrightarrow> CHR ''#'' \<notin> set (remove_unsafe (lstrip_c0 u))"
  unfolding lstrip_c0_def remove_unsafe_def using set_dropWhileD by fastforce

lemma hash_not_scheme_char: "CHR ''#'' \<notin> set scheme_chars"
  by (simp add: scheme_chars_def ascii_lowercase_def ascii_uppercase_def)

lemma split_scheme_fragment:
  assumes "CHR ''#'' \<notin> set x"
  shows "split_scheme (x @ CHR ''#'' # g) = (fst (split_scheme x), snd (split_scheme x) @ CHR ''#'' # g)"
proof (cases "CHR '':'' \<in> set x")
  case True
  then have tw: "takeWhile (\<lambda>c. c \<noteq> CHR '':'') (x @ CHR ''#'' # g) = takeWhile (\<lambda>c. c \<noteq> CHR '':'') x"
    and dw: "dropWhile (\<lambda>c. c \<noteq> CHR '':'') (x @ CHR ''#'' # g)
               = dropWhile (\<lambda>c. c \<noteq> CHR '':'') x @ CHR ''#'' # g"
    by (simp_all add: takeWhile_append1 dropWhile_append1)
  have ne: "Suc 0 - length (dropWhile (\<lambda>c. c \<noteq> CHR '':'') x) = 0"
    using True by (cases "dropWhile (\<lambda>c. c \<noteq> CHR '':'') x") auto
  have hd: "hd (x @ CHR ''#'' # g) = hd x" using True by (cases x) auto
  show ?thesis
    unfolding split_scheme_eq tw dw hd using True ne by (simp add: drop_Suc tl_append2)
next
  case False
  have tw: "takeWhile (\<lambda>c. c \<noteq> CHR '':'') (x @ CHR ''#'' # g) = x @ CHR ''#'' # takeWhile (\<lambda>c. c \<noteq> CHR '':'') g"
    using takeWhile_pass[OF False, of "CHR ''#'' # g"] by simp
  have "\<not> set (takeWhile (\<lambda>c. c \<noteq> CHR '':'') (x @ CHR ''#'' # g)) \<subseteq> set scheme_chars"
    unfolding tw using hash_not_scheme_char by auto
  then have "split_scheme (x @ CHR ''#'' # g) = ('''', x @ CHR ''#'' # g)"
    unfolding split_scheme_eq by simp
  moreover have "split_scheme x = ('''', x)"
    unfolding split_scheme_eq using False by simp
  ultimately show ?thesis by simp
qed

lemma split_scheme_rest_subset: "set (snd (split_scheme x)) \<subseteq> set x"
  unfolding split_scheme_eq
  by (auto dest!: in_set_dropD set_dropWhileD)

lemma take2_fragment:
  "CHR ''#'' \<notin> set r \<Longrightarrow> (take 2 (r @ CHR ''#'' # g) = ''//'') = (take 2 r = ''//'')"
  by (cases r; cases "tl r") (auto simp: numeral_2_eq_2)

lemma splitnetloc_fragment:
  assumes "take 2 r = ''//''" and "CHR ''#'' \<notin> set r"
  shows "splitnetloc (r @ CHR ''#'' # g) 2 = (fst (splitnetloc r 2), snd (splitnetloc r 2) @ CHR ''#'' # g)"
proof -
  let ?P = "\<lambda>x. x \<noteq> CHR ''/'' \<and> x \<noteq> CHR ''?'' \<and> x \<noteq> CHR ''#''"
  have len: "2 \<le> length r" using assms(1) by (cases r; cases "tl r") (auto simp: numeral_2_eq_2)
  have d2: "drop 2 (r @ CHR ''#'' # g) = drop 2 r @ CHR ''#'' # g" using len by simp
  have len': "2 \<le> length (r @ CHR ''#'' # g)" using len by simp
  show ?thesis
    unfolding splitnetloc_eq[OF len] splitnetloc_eq[OF len'] d2
    by (simp add: takeWhile_stop dropWhile_stop)
qed

lemma splitnetloc_rest_subset: "2 \<le> length r \<Longrightarrow> set (snd (splitnetloc r 2)) \<subseteq> set r"
  by (auto simp: splitnetloc_eq dest!: set_dropWhileD in_set_dropD)

lemma take2_length: "take 2 r = ''//'' \<Longrightarrow> 2 \<le> length r"
  by (cases r; cases "tl r") (auto simp: numeral_2_eq_2)

lemma urlsplit_unfold:
  assumes "split_scheme (remove_unsafe (lstrip_c0 u)) = (s, r)"
    and "(if take 2 r = ''//'' then splitnetloc r 2 else ('''', r)) = (n, r3)"
    and "(if CHR ''#'' \<in> set r3 then split1 r3 CHR ''#'' else (r3, '''')) = (p4, fr)"
    and "(if CHR ''?'' \<in> set p4 then split1 p4 CHR ''?'' else (p4, '''')) = (p5, q)"
  shows "urlsplit lb u =
     (if take 2 r = ''//'' \<and>
            ((CHR ''['' \<in> set n \<and> CHR '']'' \<notin> set n) \<or>
             (CHR '']'' \<in> set n \<and> CHR ''['' \<notin> set n))
      then None
      else if take 2 r = ''//'' \<and> CHR ''['' \<in> set n \<and> CHR '']'' \<in> set n
                 \<and> \<not> check_bracketed_host lb (bracketed_host n)
      then None
      else if \<not> checknetloc lb n then None
      else Some \<lparr>sr_scheme = s, sr_netloc = n, sr_path = p5, sr_query = q, sr_fragment = fr\<rparr>)"
  unfolding urlsplit_def Let_def assms(1) prod.case assms(2) assms(3) assms(4) ..

lemma urlsplit_fragment:
  assumes "CHR ''#'' \<notin> set u"
  shows "urlsplit lb (u @ CHR ''#'' # f)
         = map_option (\<lambda>r. r\<lparr>sr_fragment := remove_unsafe f\<rparr>) (urlsplit lb u)"
proof -
  let ?x = "remove_unsafe (lstrip_c0 u)"
  let ?g = "remove_unsafe f"
  obtain s r where sr: "split_scheme ?x = (s, r)" by (cases "split_scheme ?x")
  obtain n r3 where nr: "(if take 2 r = ''//'' then splitnetloc r 2 else ('''', r)) = (n, r3)"
    by (cases "if take 2 r = ''//'' then splitnetloc r 2 else ('''', r)")
  obtain p5 q where pq: "(if CHR ''?'' \<in> set r3 then split1 r3 CHR ''?'' else (r3, '''')) = (p5, q)"
    by (cases "if CHR ''?'' \<in> set r3 then split1 r3 CHR ''?'' else (r3, '''')")
  have hx: "CHR ''#'' \<notin> set ?x" using assms by (rule pre_no_hash)
  have hr: "CHR ''#'' \<notin> set r" using hx split_scheme_rest_subset[of ?x] sr by auto
  have h3: "CHR ''#'' \<notin> set r3"
  proof (cases "take 2 r = ''//''")
    case True
    then show ?thesis using hr splitnetloc_rest_subset[OF take2_length[OF True]] nr by auto
  next
    case False
    then show ?thesis using hr nr by simp
  qed
  have base: "(if CHR ''#'' \<in> set r3 then split1 r3 CHR ''#'' else (r3, '''')) = (r3, '''')"
    using h3 by simp
  have sr': "split_scheme (remove_unsafe (lstrip_c0 (u @ CHR ''#'' # f))) = (s, r @ CHR ''#'' # ?g)"
    unfolding pre_fragment using split_scheme_fragment[OF hx, of ?g] sr by simp
  have t2: "(take 2 (r @ CHR ''#'' # ?g) = ''//'') = (take 2 r = ''//'')"
    using hr by (rule take2_fragment)
  have nr': "(if take 2 (r @ CHR ''#'' # ?g) = ''//'' then splitnetloc (r @ CHR ''#'' # ?g) 2
              else ('''', r @ CHR ''#'' # ?g)) = (n, r3 @ CHR ''#'' # ?g)"
  proof (cases "take 2 r = ''//''")
    case True
    from splitnetloc_fragment[OF True hr, of ?g] nr True show ?thesis
      unfolding t2 by simp
  next
    case False
    then show ?thesis unfolding t2 using nr by simp
  qed
  have frag: "(if CHR ''#'' \<in> set (r3 @ CHR ''#'' # ?g) then split1 (r3 @ CHR ''#'' # ?g) CHR ''#''
               else (r3 @ CHR ''#'' # ?g, '''')) = (r3, ?g)"
    using split1_stop[OF h3, of ?g] by simp
  show ?thesis
    unfolding urlsplit_unfold[OF sr nr base pq] urlsplit_unfold[OF sr' nr' frag pq] t2
    by simp
qed

lemma urlparse_fragment:
  assumes "CHR ''#'' \<notin> set u"
  shows "urlparse lb (u @ CHR ''#'' # f)
         = map_option (\<lambda>r. r\<lparr>fragment := remove_unsafe f\<rparr>) (urlparse lb u)"
  unfolding urlparse_def urlsplit_fragment[OF assms]
  by (cases "urlsplit lb u") (simp_all add: Let_def split_beta)

lemma normalize_url_fragment:
  assumes "CHR ''#'' \<notin> set u" and "urlparse lb u \<noteq> None"
  shows "normalize_url lb (u @ CHR ''#'' # f) = normalize_url lb u"
  using assms(2) unfolding normalize_url_def urlparse_fragment[OF assms(1)]
  by (cases "urlparse lb u") (simp_all add: Let_def)

lemma scheme_char_facts:
  "\<forall>c \<in> set scheme_chars.
     lower c \<in> set scheme_chars \<and> lower (lower c) = lower c \<and> lower c \<noteq> CHR '':'' \<and>
     \<not> (of_char (lower c) :: nat) \<le> 32 \<and> lower c \<notin> {CHR 0x09, CHR 0x0D, CHR 0x0A} \<and>
     lower c \<noteq> CHR ''/'' \<and> lower c \<noteq> CHR ''?'' \<and> lower c \<noteq> CHR ''#''"
  by code_simp

lemma alpha_facts:
  "\<forall>c \<in> set (ascii_lowercase @ ascii_uppercase). isalpha (lower c) \<and> isascii (lower c)"
  by code_simp

lemma takeWhile_all: "\<forall>c \<in> set xs. P c \<Longrightarrow> \<not> P y \<Longrightarrow> takeWhile P (xs @ y # ys) = xs"
  by (induction xs) auto

lemma dropWhile_all: "\<forall>c \<in> set xs. P c \<Longrightarrow> \<not> P y \<Longrightarrow> dropWhile P (xs @ y # ys) = y # ys"
  by (induction xs) auto

lemma takeWhile_all_end: "\<forall>c \<in> set xs. P c \<Longrightarrow> takeWhile P xs = xs"
  by (induction xs) auto

lemma dropWhile_all_end: "\<forall>c \<in> set xs. P c \<Longrightarrow> dropWhile P xs = []"
  by (induction xs) auto

lemma scheme_char_lower:
  assumes "c \<in> set scheme_chars"
  shows "lower c \<in> set scheme_chars" and "lower (lower c) = lower c"
    and "lower c \<noteq> CHR '':''" and "\<not> (of_char (lower c) :: nat) \<le> 32"
    and "lower c \<noteq> CHR 0x09" and "lower c \<noteq> CHR 0x0D" and "lower c \<noteq> CHR 0x0A"
    and "lower c \<noteq> CHR ''/''" and "lower c \<noteq> CHR ''?''" and "lower c \<noteq> CHR ''#''"
proof -
  from scheme_char_facts assms have
    "lower c \<in> set scheme_chars \<and> lower (lower c) = lower c \<and> lower c \<noteq> CHR '':'' \<and>
     \<not> (of_char (lower c) :: nat) \<le> 32 \<and> lower c \<notin> {CHR 0x09, CHR 0x0D, CHR 0x0A} \<and>
     lower c \<noteq> CHR ''/'' \<and> lower c \<noteq> CHR ''?'' \<and> lower c \<noteq> CHR ''#''"
    by (rule bspec)
  then show "lower c \<in> set scheme_chars" and "lower (lower c) = lower c"
    and "lower c \<noteq> CHR '':''" and "\<not> (of_char (lower c) :: nat) \<le> 32"
    and "lower c \<noteq> CHR 0x09" and "lower c \<noteq> CHR 0x0D" and "lower c \<noteq> CHR 0x0A"
    and "lower c \<noteq> CHR ''/''" and "lower c \<noteq> CHR ''?''" and "lower c \<noteq> CHR ''#''"
    by simp_all
qed

lemma lowered_scheme:
  assumes "set s0 \<subseteq> set scheme_chars"
  shows "set (map lower s0) \<subseteq> set scheme_chars"
    and "map lower (map lower s0) = map lower s0"
    and "\<forall>c \<in> set (map lower s0). c \<noteq> CHR '':''"
    and "\<forall>c \<in> set (map lower s0). c \<notin> {CHR 0x09, CHR 0x0D, CHR 0x0A}"
    and "\<forall>c \<in> set (map lower s0). \<not> (of_char c :: nat) \<le> 32"
  using assms
  by (induction s0) (simp_all add: scheme_char_lower)

lemma pre_fixed:
  assumes "w \<noteq> []" and "\<not> (of_char (hd w) :: nat) \<le> 32"
    and "\<forall>c \<in> set w. c \<notin> {CHR 0x09, CHR 0x0D, CHR 0x0A}"
  shows "remove_unsafe (lstrip_c0 w) = w"
proof -
  have "lstrip_c0 w = w" using assms(1,2) by (cases w) (simp_all add: lstrip_c0_def)
  moreover have "remove_unsafe w = w" using assms(3) by (simp add: remove_unsafe_def)
  ultimately show ?thesis by simp
qed

lemma split_scheme_rebuilt:
  assumes "s0 \<noteq> []" and "set s0 \<subseteq> set scheme_chars" and "isalpha (hd s0)"
  shows "split_scheme (map lower s0 @ '':'' @ rest) = (map lower s0, rest)"
proof -
  let ?s = "map lower s0"
  let ?w = "?s @ '':'' @ rest"
  have nc: "\<forall>c \<in> set ?s. c \<noteq> CHR '':''" using lowered_scheme(3)[OF assms(2)] .
  have tw: "takeWhile (\<lambda>c. c \<noteq> CHR '':'') ?w = ?s" using nc by (simp add: takeWhile_all)
  have dw: "dropWhile (\<lambda>c. c \<noteq> CHR '':'') ?w = CHR '':'' # rest" using nc by (simp add: dropWhile_all)
  have hdw: "hd ?w = lower (hd s0)" using assms(1) by (cases s0) simp_all
  have "hd s0 \<in> set (ascii_lowercase @ ascii_uppercase)" using assms(3) by (simp add: isalpha_def)
  then have al: "isalpha (lower (hd s0)) \<and> isascii (lower (hd s0))" using alpha_facts by blast
  show ?thesis
    unfolding split_scheme_eq tw dw hdw
    using assms(1) al lowered_scheme(1,2)[OF assms(2)] by simp
qed

lemma urlsplit_rebuilt:
  assumes "s0 \<noteq> []" and "set s0 \<subseteq> set scheme_chars" and "isalpha (hd s0)"
    and "\<forall>c \<in> set n. c \<noteq> CHR ''/'' \<and> c \<noteq> CHR ''?'' \<and> c \<noteq> CHR ''#''"
    and "\<forall>c \<in> set n. c \<notin> {CHR 0x09, CHR 0x0D, CHR 0x0A}"
    and "p = [] \<or> hd p = CHR ''/''"
    and "CHR ''#'' \<notin> set p" and "CHR ''?'' \<notin> set p"
    and "\<forall>c \<in> set p. c \<notin> {CHR 0x09, CHR 0x0D, CHR 0x0A}"
  shows "urlsplit lb (map lower s0 @ ''://'' @ n @ p) =
     (if (CHR ''['' \<in> set n \<and> CHR '']'' \<notin> set n) \<or> (CHR '']'' \<in> set n \<and> CHR ''['' \<notin> set n)
      then None
      else if CHR ''['' \<in> set n \<and> CHR '']'' \<in> set n
                 \<and> \<not> check_bracketed_host lb (bracketed_host n)
      then None
      else if \<not> checknetloc lb n then None
      else Some \<lparr>sr_scheme = map lower s0, sr_netloc = n, sr_path = p, sr_query = '''',
                 sr_fragment = ''''\<rparr>)"
proof -
  let ?s = "map lower s0"
  let ?w = "?s @ ''://'' @ n @ p"
  let ?P = "\<lambda>x. x \<noteq> CHR ''/'' \<and> x \<noteq> CHR ''?'' \<and> x \<noteq> CHR ''#''"
  have sne: "?s \<noteq> []" using assms(1) by simp
  have wne: "?w \<noteq> []" using sne by simp
  have hdw: "hd ?w = hd ?s" using sne by simp
  have "hd ?s \<in> set ?s" using sne by (rule hd_in_set)
  from bspec[OF lowered_scheme(5)[OF assms(2)] this]
  have h32: "\<not> (of_char (hd ?w) :: nat) \<le> 32" unfolding hdw .
  have sep: "\<forall>c \<in> set ''://''. c \<notin> {CHR 0x09, CHR 0x0D, CHR 0x0A}" by simp
  have safe: "\<forall>c \<in> set ?w. c \<notin> {CHR 0x09, CHR 0x0D, CHR 0x0A}"
    using lowered_scheme(4)[OF assms(2)] assms(5,9) sep
    by (simp only: set_append ball_Un)
  have pre: "remove_unsafe (lstrip_c0 ?w) = ?w" using wne h32 safe by (rule pre_fixed)
  have ss: "split_scheme (remove_unsafe (lstrip_c0 ?w)) = (?s, ''//'' @ n @ p)"
    unfolding pre using split_scheme_rebuilt[OF assms(1,2,3), of "''//'' @ n @ p"] by simp
  have t2: "take 2 (''//'' @ n @ p) = ''//''" by simp
  have len: "2 \<le> length (''//'' @ n @ p)" by simp
  have np: "takeWhile ?P (n @ p) = n \<and> dropWhile ?P (n @ p) = p"
  proof (cases p)
    case Nil
    then show ?thesis using assms(4) by (simp add: takeWhile_all_end dropWhile_all_end)
  next
    case (Cons a p')
    then have "a = CHR ''/''" using assms(6) by simp
    then show ?thesis using Cons assms(4) takeWhile_all[of n ?P a p'] dropWhile_all[of n ?P a p']
      by simp
  qed
  have nr: "(if take 2 (''//'' @ n @ p) = ''//'' then splitnetloc (''//'' @ n @ p) 2
             else ('''', ''//'' @ n @ p)) = (n, p)"
    unfolding splitnetloc_eq[OF len] using np by simp
  have fr: "(if CHR ''#'' \<in> set p then split1 p CHR ''#'' else (p, '''')) = (p, '''')"
    using assms(7) by simp
  have qu: "(if CHR ''?'' \<in> set p then split1 p CHR ''?'' else (p, '''')) = (p, '''')"
    using assms(8) by simp
  show ?thesis
    unfolding urlsplit_unfold[OF ss nr fr qu] t2 by simp
qed
lemma remove_unsafe_safe: "\<forall>c \<in> set (remove_unsafe w). c \<notin> {CHR 0x09, CHR 0x0D, CHR 0x0A}"
  by (simp add: remove_unsafe_def)

lemma path_of_rest:
  assumes "r3 = [] \<or> hd r3 = CHR ''/'' \<or> hd r3 = CHR ''?'' \<or> hd r3 = CHR ''#''"
    and "(if CHR ''#'' \<in> set r3 then split1 r3 CHR ''#'' else (r3, '''')) = (p4, fr)"
    and "(if CHR ''?'' \<in> set p4 then split1 p4 CHR ''?'' else (p4, '''')) = (p5, q)"
  shows "set p5 \<subseteq> set r3" and "CHR ''#'' \<notin> set p5" and "CHR ''?'' \<notin> set p5"
    and "p5 = [] \<or> hd p5 = CHR ''/''"
proof -
  have p4: "p4 = takeWhile (\<lambda>x. x \<noteq> CHR ''#'') r3"
    using assms(2) by (cases "CHR ''#'' \<in> set r3") (auto simp: split1_def takeWhile_absent)
  have p5: "p5 = takeWhile (\<lambda>x. x \<noteq> CHR ''?'') p4"
    using assms(3) by (cases "CHR ''?'' \<in> set p4") (auto simp: split1_def takeWhile_absent)
  show "set p5 \<subseteq> set r3" unfolding p5 p4 by (auto dest!: set_takeWhileD)
  show "CHR ''#'' \<notin> set p5" unfolding p5 p4 by (auto dest!: set_takeWhileD)
  show "CHR ''?'' \<notin> set p5" unfolding p5 by (auto dest!: set_takeWhileD)
  show "p5 = [] \<or> hd p5 = CHR ''/''"
  proof (cases r3)
    case Nil
    then show ?thesis by (simp add: p5 p4)
  next
    case (Cons a r')
    with assms(1) have "a = CHR ''/'' \<or> a = CHR ''?'' \<or> a = CHR ''#''" by simp
    then show ?thesis unfolding p5 p4 Cons by auto
  qed
qed

lemma urlsplit_shape:
  assumes "urlsplit lb u = Some sr" and "sr_scheme sr \<noteq> []" and "sr_netloc sr \<noteq> []"
  shows "\<exists>s0. sr_scheme sr = map lower s0 \<and> s0 \<noteq> [] \<and> set s0 \<subseteq> set scheme_chars \<and> isalpha (hd s0)"
    and "\<forall>c \<in> set (sr_netloc sr). c \<noteq> CHR ''/'' \<and> c \<noteq> CHR ''?'' \<and> c \<noteq> CHR ''#''"
    and "\<forall>c \<in> set (sr_netloc sr). c \<notin> {CHR 0x09, CHR 0x0D, CHR 0x0A}"
    and "sr_path sr = [] \<or> hd (sr_path sr) = CHR ''/''"
    and "CHR ''#'' \<notin> set (sr_path sr)" and "CHR ''?'' \<notin> set (sr_path sr)"
    and "\<forall>c \<in> set (sr_path sr). c \<notin> {CHR 0x09, CHR 0x0D, CHR 0x0A}"
    and "\<not> ((CHR ''['' \<in> set (sr_netloc sr) \<and> CHR '']'' \<notin> set (sr_netloc sr)) \<or>
            (CHR '']'' \<in> set (sr_netloc sr) \<and> CHR ''['' \<notin> set (sr_netloc sr)))"
    and "CHR ''['' \<in> set (sr_netloc sr) \<and> CHR '']'' \<in> set (sr_netloc sr)
           \<longrightarrow> check_bracketed_host lb (bracketed_host (sr_netloc sr))"
    and "checknetloc lb (sr_netloc sr)"
proof -
  let ?x = "remove_unsafe (lstrip_c0 u)"
  let ?P = "\<lambda>x. x \<noteq> CHR ''/'' \<and> x \<noteq> CHR ''?'' \<and> x \<noteq> CHR ''#''"
  obtain s r where sr: "split_scheme ?x = (s, r)" by (cases "split_scheme ?x")
  obtain n r3 where nr: "(if take 2 r = ''//'' then splitnetloc r 2 else ('''', r)) = (n, r3)"
    by (cases "if take 2 r = ''//'' then splitnetloc r 2 else ('''', r)")
  obtain p4 fr where pf: "(if CHR ''#'' \<in> set r3 then split1 r3 CHR ''#'' else (r3, '''')) = (p4, fr)"
    by (cases "if CHR ''#'' \<in> set r3 then split1 r3 CHR ''#'' else (r3, '''')")
  obtain p5 q where pq: "(if CHR ''?'' \<in> set p4 then split1 p4 CHR ''?'' else (p4, '''')) = (p5, q)"
    by (cases "if CHR ''?'' \<in> set p4 then split1 p4 CHR ''?'' else (p4, '''')")
  note unf = urlsplit_unfold[OF sr nr pf pq, of lb]
  from assms(1) have ok:
      "\<not> (take 2 r = ''//'' \<and>
            ((CHR ''['' \<in> set n \<and> CHR '']'' \<notin> set n) \<or> (CHR '']'' \<in> set n \<and> CHR ''['' \<notin> set n)))"
      "\<not> (take 2 r = ''//'' \<and> CHR ''['' \<in> set n \<and> CHR '']'' \<in> set n
                 \<and> \<not> check_bracketed_host lb (bracketed_host n))"
      "checknetloc lb n"
      and eq: "sr = \<lparr>sr_scheme = s, sr_netloc = n, sr_path = p5, sr_query = q, sr_fragment = fr\<rparr>"
    unfolding unf by (auto split: if_splits)
  have fields: "sr_scheme sr = s" "sr_netloc sr = n" "sr_path sr = p5" by (simp_all add: eq)
  have nne: "n \<noteq> []" and sne: "s \<noteq> []" using assms(2,3) fields by simp_all
  have t2: "take 2 r = ''//''" using nr nne by (cases "take 2 r = ''//''") auto
  have len: "2 \<le> length r" using t2 by (rule take2_length)
  have n: "n = takeWhile ?P (drop 2 r)" and r3: "r3 = dropWhile ?P (drop 2 r)"
    using nr t2 by (simp_all add: splitnetloc_eq[OF len])
  have safe_x: "\<forall>c \<in> set ?x. c \<notin> {CHR 0x09, CHR 0x0D, CHR 0x0A}" by (rule remove_unsafe_safe)
  have r_sub: "set r \<subseteq> set ?x" using split_scheme_rest_subset[of ?x] sr by simp
  have n_sub: "set n \<subseteq> set r" unfolding n by (auto dest!: set_takeWhileD in_set_dropD)
  have r3_sub: "set r3 \<subseteq> set r" unfolding r3 by (auto dest!: set_dropWhileD in_set_dropD)
  have r3_hd: "r3 = [] \<or> hd r3 = CHR ''/'' \<or> hd r3 = CHR ''?'' \<or> hd r3 = CHR ''#''"
    unfolding r3 using hd_dropWhile[of ?P "drop 2 r"] by blast
  note pth = path_of_rest[OF r3_hd pf pq]
  have cond: "CHR '':'' \<in> set ?x \<and> takeWhile (\<lambda>c. c \<noteq> CHR '':'') ?x \<noteq> [] \<and>
         isascii (hd ?x) \<and> isalpha (hd ?x) \<and>
         set (takeWhile (\<lambda>c. c \<noteq> CHR '':'') ?x) \<subseteq> set scheme_chars"
    and s: "s = map lower (takeWhile (\<lambda>c. c \<noteq> CHR '':'') ?x)"
    using sr sne unfolding split_scheme_eq by (auto split: if_splits)
  have hd0: "hd (takeWhile (\<lambda>c. c \<noteq> CHR '':'') ?x) = hd ?x"
    using cond by (cases ?x) (auto split: if_splits)
  show "\<exists>s0. sr_scheme sr = map lower s0 \<and> s0 \<noteq> [] \<and> set s0 \<subseteq> set scheme_chars \<and> isalpha (hd s0)"
    unfolding fields s using cond hd0 by (intro exI[of _ "takeWhile (\<lambda>c. c \<noteq> CHR '':'') ?x"]) simp
  show "\<forall>c \<in> set (sr_netloc sr). c \<noteq> CHR ''/'' \<and> c \<noteq> CHR ''?'' \<and> c \<noteq> CHR ''#''"
    unfolding fields n by (auto dest!: set_takeWhileD)
  show "\<forall>c \<in> set (sr_netloc sr). c \<notin> {CHR 0x09, CHR 0x0D, CHR 0x0A}"
    unfolding fields using n_sub r_sub safe_x by blast
  show "sr_path sr = [] \<or> hd (sr_path sr) = CHR ''/''" unfolding fields by (rule pth(4))
  show "CHR ''#'' \<notin> set (sr_path sr)" unfolding fields by (rule pth(2))
  show "CHR ''?'' \<notin> set (sr_path sr)" unfolding fields by (rule pth(3))
  show "\<forall>c \<in> set (sr_path sr). c \<notin> {CHR 0x09, CHR 0x0D, CHR 0x0A}"
    unfolding fields using pth(1) r3_sub r_sub safe_x by blast
  show "\<not> ((CHR ''['' \<in> set (sr_netloc sr) \<and> CHR '']'' \<notin> set (sr_netloc sr)) \<or>
            (CHR '']'' \<in> set (sr_netloc sr) \<and> CHR ''['' \<notin> set (sr_netloc sr)))"
    unfolding fields using ok(1) t2 by blast
  show "CHR ''['' \<in> set (sr_netloc sr) \<and> CHR '']'' \<in> set (sr_netloc sr)
           \<longrightarrow> check_bracketed_host lb (bracketed_host (sr_netloc sr))"
    unfolding fields using ok(2) t2 by blast
  show "checknetloc lb (sr_netloc sr)" unfolding fields by (rule ok(3))
qed

lemma slice_to_take: "\<exists>k. slice_to s i = take k s"
  by (auto simp: slice_to_def)

lemma splitparams_fst: "\<exists>k. fst (splitparams p) = take k p"
proof -
  have whole: "\<exists>k. p = take k p" by (rule exI[of _ "length p"]) simp
  show ?thesis
    unfolding splitparams_def Let_def using slice_to_take whole
    by (auto split: if_splits)
qed

lemma urlparse_shape:
  assumes "urlparse lb u = Some r"
  shows "\<exists>sr k. urlsplit lb u = Some sr \<and> scheme r = sr_scheme sr \<and> netloc r = sr_netloc sr \<and>
                 path r = take k (sr_path sr)"
proof -
  from assms obtain sr where sr: "urlsplit lb u = Some sr"
    by (cases "urlsplit lb u") (auto simp: urlparse_def)
  obtain k where k: "fst (splitparams (sr_path sr)) = take k (sr_path sr)"
    using splitparams_fst by blast
  have whole: "sr_path sr = take (length (sr_path sr)) (sr_path sr)" by simp
  from assms sr have "scheme r = sr_scheme sr \<and> netloc r = sr_netloc sr \<and>
      (path r = fst (splitparams (sr_path sr)) \<or> path r = sr_path sr)"
    by (auto simp: urlparse_def Let_def split_beta split: if_splits)
  then show ?thesis using sr k whole by metis
qed

lemma hd_take: "take k p \<noteq> [] \<Longrightarrow> hd (take k p) = hd p"
  by (cases p; cases k) auto

lemma urlparse_rebuilt:
  assumes "urlparse lb u = Some r" and "scheme r \<noteq> []" and "netloc r \<noteq> []"
    and "CHR '';'' \<notin> set (path r)"
  shows "urlparse lb (scheme r @ ''://'' @ netloc r @ take m (path r)) =
           Some \<lparr>scheme = scheme r, netloc = netloc r, path = take m (path r), params = '''',
                  query = '''', fragment = ''''\<rparr>"
proof -
  from urlparse_shape[OF assms(1)] obtain sr k where
    sr: "urlsplit lb u = Some sr" and sc: "scheme r = sr_scheme sr"
    and nl: "netloc r = sr_netloc sr" and pa: "path r = take k (sr_path sr)"
    by blast
  have sne: "sr_scheme sr \<noteq> []" and nne: "sr_netloc sr \<noteq> []" using assms(2,3) sc nl by simp_all
  note sh = urlsplit_shape[OF sr sne nne]
  from sh(1) obtain s0 where s0: "sr_scheme sr = map lower s0" "s0 \<noteq> []"
    "set s0 \<subseteq> set scheme_chars" "isalpha (hd s0)" by blast
  let ?p = "take m (path r)"
  have sub: "set ?p \<subseteq> set (sr_path sr)"
    unfolding pa using set_take_subset[of m "take k (sr_path sr)"] set_take_subset[of k "sr_path sr"]
    by blast
  have p1: "?p = [] \<or> hd ?p = CHR ''/''"
  proof (cases "?p = []")
    case True
    then show ?thesis by simp
  next
    case False
    then have "path r \<noteq> []" by auto
    then have "sr_path sr \<noteq> []" unfolding pa by auto
    with sh(4) have "hd (sr_path sr) = CHR ''/''" by simp
    moreover have "hd ?p = hd (path r)" using False by (rule hd_take)
    moreover have "hd (path r) = hd (sr_path sr)"
      unfolding pa using \<open>path r \<noteq> []\<close> pa hd_take[of k "sr_path sr"] by simp
    ultimately show ?thesis by simp
  qed
  have p2: "CHR ''#'' \<notin> set ?p" and p3: "CHR ''?'' \<notin> set ?p"
    and p4: "\<forall>c \<in> set ?p. c \<notin> {CHR 0x09, CHR 0x0D, CHR 0x0A}"
    using sub sh(5,6,7) by blast+
  have p5: "CHR '';'' \<notin> set ?p" using assms(4) set_take_subset[of m "path r"] by blast
  have split: "urlsplit lb (map lower s0 @ ''://'' @ sr_netloc sr @ ?p) =
      Some \<lparr>sr_scheme = map lower s0, sr_netloc = sr_netloc sr, sr_path = ?p, sr_query = '''',
            sr_fragment = ''''\<rparr>"
    unfolding urlsplit_rebuilt[OF s0(2,3,4) sh(2,3) p1 p2 p3 p4]
    using sh(8,9,10) by simp
  show ?thesis
    unfolding urlparse_def sc nl s0(1) split using p5 by (simp add: Let_def)
qed

lemma endswith_slash: "p \<noteq> [] \<Longrightarrow> endswith (a @ p) ''/'' = (last p = CHR ''/'')"
  unfolding endswith_def
  by (metis append_butlast_last_id append_assoc last_appendR suffix_def last_snoc snoc_suffix_snoc
        suffix_bot.bot_least append_Nil)

lemma double_slash:
  assumes "last p = CHR ''/''" and "butlast p \<noteq> []" and "last (butlast p) = CHR ''/''"
  shows "suffix ''//'' p"
proof -
  have "p \<noteq> []" using assms(2) by auto
  then have "p = butlast p @ [CHR ''/'']" using assms(1) by (metis append_butlast_last_id)
  moreover have "butlast p = butlast (butlast p) @ [CHR ''/'']"
    using assms(2,3) by (metis append_butlast_last_id)
  ultimately have "p = butlast (butlast p) @ ''//''" by (metis append_assoc append_Cons append_Nil)
  then show ?thesis unfolding suffix_def by blast
qed

lemma normalize_url_parts:
  assumes "urlparse lb w = Some \<lparr>scheme = s, netloc = n, path = p, params = a, query = b,
                                     fragment = c\<rparr>"
    and "\<not> (endswith (s @ ''://'' @ n @ p) ''/'' \<and> 1 < length p)"
  shows "normalize_url lb w = s @ ''://'' @ n @ p"
  using assms(2) unfolding normalize_url_def assms(1) by (auto simp: Let_def)


section \<open>Normalisation, fragments and queries\<close>

text \<open>
  Claim C1 says that, for every URL, normalisation strips the fragment and keeps the
  query, so that URLs differing only in fragment normalise to the same string and URLs
  differing only in query to different ones. Two inputs show that neither half holds for
  every URL. The strings \<open>http://[#a\<close> and \<open>http://[#b\<close> differ only after the \<open>#\<close>; the
  parser rejects both (an opening bracket without its closing one), the function returns
  each unchanged, and the results differ. The strings \<open>https://a.com/p?x=1\<close> and
  \<open>https://a.com/p?x=2\<close> differ only in query; the function rebuilds a URL from scheme,
  host and path alone, and both become \<open>https://a.com/p\<close>.
\<close>

theorem normalize_keeps_rejected_drops_query:
  "urlparse lib0 ''http://[#a'' = None \<and>
   normalize_url lib0 ''http://[#a'' = ''http://[#a'' \<and>
   normalize_url lib0 ''http://[#b'' = ''http://[#b'' \<and>
   normalize_url lib0 ''http://[#a'' \<noteq> normalize_url lib0 ''http://[#b'' \<and>
   normalize_url lib0 ''https://a.com/p?x=1'' = ''https://a.com/p'' \<and>
   normalize_url lib0 ''https://a.com/p?x=2'' = ''https://a.com/p''"
  by code_simp

text \<open>
  Claim C1, amended: for every URL that the parser accepts, normalisation strips the
  fragment. If \<open>u\<close> has no \<open>#\<close> and parses, then \<open>u\<close> followed by \<open>#\<close> and any fragment
  normalises to the same string as \<open>u\<close> itself; hence two URLs that differ only in
  fragment normalise to the same string.
\<close>

theorem normalize_strips_fragment:
  assumes "CHR ''#'' \<notin> set u" and "urlparse lb u \<noteq> None"
  shows "normalize_url lb (u @ CHR ''#'' # f) = normalize_url lb u \<and>
         normalize_url lb (u @ CHR ''#'' # f) = normalize_url lb (u @ CHR ''#'' # g)"
  using normalize_url_fragment[OF assms] by simp

theorem normalize_strips_fragment_witness:
  "CHR ''#'' \<notin> set ''https://a.com/docs/'' \<and>
   urlparse lib0 ''https://a.com/docs/'' \<noteq> None \<and>
   normalize_url lib0 ''https://a.com/docs/#intro'' = ''https://a.com/docs'' \<and>
   normalize_url lib0 ''https://a.com/docs/#intro'' = normalize_url lib0 ''https://a.com/docs/#usage''"
proof -
  have h: "CHR ''#'' \<notin> set ''https://a.com/docs/''" by simp
  have p: "urlparse lib0 ''https://a.com/docs/'' \<noteq> None" by code_simp
  have n: "normalize_url lib0 ''https://a.com/docs/'' = ''https://a.com/docs''" by code_simp
  note t = normalize_strips_fragment[OF h p, of "''intro''" "''usage''", unfolded append.simps]
  have e1: "normalize_url lib0 ''https://a.com/docs/#intro'' = normalize_url lib0 ''https://a.com/docs/''"
    using t by blast
  have e2: "normalize_url lib0 ''https://a.com/docs/#intro'' = normalize_url lib0 ''https://a.com/docs/#usage''"
    using t by blast
  show ?thesis using h p e1[unfolded n] e2 by blast
qed


section \<open>The budget of a crawl\<close>

text \<open>
  Claim C2: for every crawl run with \<open>max_depth \<ge> 0\<close> and \<open>max_pages > 0\<close>, the number of
  page records produced never exceeds \<open>max_pages\<close>, and the depth of every page record is
  at most \<open>max_depth\<close>. The records are those that the run returns under the key \<open>data\<close>.
\<close>

theorem crawl_within_budget:
  assumes "init env b md mp = Some c" and "0 \<le> md" and "0 < mp"
  shows "int (length (crawled_data (snd (crawl_website env c)))) \<le> mp \<and>
         (\<forall>p \<in> set (crawled_data (snd (crawl_website env c))). page_depth p \<le> md) \<and>
         map_of (fst (crawl_website env c)) ''data''
           = Some (Data (crawled_data (snd (crawl_website env c))))"
proof -
  let ?P = "\<lambda>self. max_pages self = mp \<and> max_depth self = md \<and>
              int (length (crawled_data self)) \<le> int (fcard (visited_urls self)) \<and>
              int (fcard (visited_urls self)) \<le> mp \<and>
              (\<forall>p \<in> set (crawled_data self). page_depth p \<le> md)"
  have "?P c" using init_fields[OF assms(1)] assms(3) by (simp add: fcard_fempty)
  then have "?P (crawl_loop env [(base_url c, 0)] c)"
    by (rule crawl_loop_invariant) (rule crawl_page_keeps_budget_invariant)
  then show ?thesis by (simp add: crawl_website_snd crawl_website_fst)
qed

theorem crawl_within_budget_witness:
  "init abc_site ''https://a.com/'' 2 10 = Some abc_crawler \<and> (0::int) \<le> 2 \<and> (0::int) < 10 \<and>
   int (length (crawled_data (snd (crawl_website abc_site abc_crawler)))) \<le> 10 \<and>
   map page_depth (crawled_data (snd (crawl_website abc_site abc_crawler))) = [0, 1, 1]"
  using crawl_within_budget[OF abc_init] abc_init
  by (simp add: crawl_website_snd abc_run)


section \<open>No URL is fetched twice\<close>

text \<open>
  Claim C3: within a single crawl run no normalized URL is fetched twice. The normalized
  URLs of the fetches of a run are pairwise distinct and are exactly the visited set.
  At every page: the visited set only grows; a fetch happens only for a URL whose
  normalized form was not visited, and that form is visited afterwards; and no link handed
  to the frontier has a visited normalized form, so neither the page itself nor a page
  visited before it is enqueued again.
\<close>

theorem no_url_fetched_twice:
  "(init env b md mp = Some c \<longrightarrow>
      distinct (map (normalize_url (lib env)) (fetched (snd (crawl_website env c)))) \<and>
      set (map (normalize_url (lib env)) (fetched (snd (crawl_website env c))))
        = fset (visited_urls (snd (crawl_website env c))))
   \<and> (crawl_page env self u d = (ls, self') \<longrightarrow>
        visited_urls self |\<subseteq>| visited_urls self' \<and>
        (\<forall>l \<in> set ls. normalize_url (lib env) l |\<notin>| visited_urls self') \<and>
        (fetched self' = fetched self \<or>
         (fetched self' = fetched self @ [u] \<and>
          normalize_url (lib env) u |\<notin>| visited_urls self \<and>
          normalize_url (lib env) u |\<in>| visited_urls self')))"
proof (intro conjI impI)
  assume i: "init env b md mp = Some c"
  let ?P = "\<lambda>self. distinct (map (normalize_url (lib env)) (fetched self)) \<and>
              set (map (normalize_url (lib env)) (fetched self)) = fset (visited_urls self)"
  have "?P c" using init_fields[OF i] by simp
  then have run: "?P (crawl_loop env [(base_url c, 0)] c)"
    by (rule crawl_loop_invariant) (rule crawl_page_keeps_fetched_invariant)
  from run show "distinct (map (normalize_url (lib env)) (fetched (snd (crawl_website env c))))"
    by (simp add: crawl_website_snd)
  from run show "set (map (normalize_url (lib env)) (fetched (snd (crawl_website env c))))
        = fset (visited_urls (snd (crawl_website env c)))"
    by (simp add: crawl_website_snd)
next
  assume cp: "crawl_page env self u d = (ls, self')"
  from crawl_page_cases[OF cp] show "visited_urls self |\<subseteq>| visited_urls self'"
    by auto
  from crawl_page_links_not_visited[OF cp]
  show "\<forall>l \<in> set ls. normalize_url (lib env) l |\<notin>| visited_urls self'" .
  from crawl_page_cases[OF cp]
  show "fetched self' = fetched self \<or>
         (fetched self' = fetched self @ [u] \<and>
          normalize_url (lib env) u |\<notin>| visited_urls self \<and>
          normalize_url (lib env) u |\<in>| visited_urls self')"
    by auto
qed

theorem no_url_fetched_twice_witness:
  "init loop_site ''https://a.com/'' 2 10 = Some abc_crawler \<and>
   fetched (snd (crawl_website loop_site abc_crawler)) = [''https://a.com/'', ''https://a.com/b''] \<and>
   distinct (map (normalize_url (lib loop_site))
               (fetched (snd (crawl_website loop_site abc_crawler)))) \<and>
   fst (crawl_page loop_site abc_crawler ''https://a.com/'' 0) = [''https://a.com/b''] \<and>
   normalize_url (lib loop_site) ''https://a.com/''
     |\<in>| visited_urls (snd (crawl_page loop_site abc_crawler ''https://a.com/'' 0))"
  using no_url_fetched_twice[of loop_site "''https://a.com/''" 2 10 abc_crawler abc_crawler
          "''https://a.com/''" 0 "fst (crawl_page loop_site abc_crawler ''https://a.com/'' 0)"
          "snd (crawl_page loop_site abc_crawler ''https://a.com/'' 0)"]
        loop_init
  by (simp add: crawl_website_snd loop_run loop_first_page abc_normalize)


section \<open>Breadth-first order\<close>

text \<open>
  Claim C4: the crawler processes the frontier in first-in first-out order. An iteration
  takes the entry at the head of the queue and appends the links it discovers at the
  tail, one level deeper (or appends none once the page budget is used up), so the page
  records of every run come in order of depth. On the site of three pages, where A links
  to B and C and B links to C, the run with \<open>max_depth = 2\<close> and \<open>max_pages = 10\<close> fetches
  A, B, C in this order, each once, and visits exactly these three URLs.
\<close>

theorem crawl_is_breadth_first:
  "(int (fcard (visited_urls self)) < max_pages self \<and> d \<le> max_depth self \<and>
    crawl_page env self u d = (ls, self') \<longrightarrow>
      crawl_loop env ((u, d) # rest) self =
        crawl_loop env
          (if int (fcard (visited_urls self')) < max_pages self'
           then rest @ map (\<lambda>l. (l, d + 1)) ls else rest)
          self')
   \<and> (init env b md mp = Some c \<longrightarrow>
        sorted (map page_depth (crawled_data (snd (crawl_website env c)))))
   \<and> init abc_site ''https://a.com/'' 2 10 = Some abc_crawler
   \<and> fetched (snd (crawl_website abc_site abc_crawler))
        = [''https://a.com/'', ''https://a.com/b'', ''https://a.com/c'']
   \<and> map page_url (crawled_data (snd (crawl_website abc_site abc_crawler)))
        = [''https://a.com/'', ''https://a.com/b'', ''https://a.com/c'']
   \<and> map page_depth (crawled_data (snd (crawl_website abc_site abc_crawler))) = [0, 1, 1]
   \<and> visited_urls (snd (crawl_website abc_site abc_crawler))
        = {|''https://a.com/'', ''https://a.com/b'', ''https://a.com/c''|}"
proof (intro conjI impI)
  assume a: "int (fcard (visited_urls self)) < max_pages self \<and> d \<le> max_depth self \<and>
    crawl_page env self u d = (ls, self')"
  then show "crawl_loop env ((u, d) # rest) self =
        crawl_loop env
          (if int (fcard (visited_urls self')) < max_pages self'
           then rest @ map (\<lambda>l. (l, d + 1)) ls else rest)
          self'"
    by (simp add: crawl_loop.simps enqueue_links_eq)
next
  assume i: "init env b md mp = Some c"
  have "sorted (map page_depth (crawled_data (crawl_loop env [(base_url c, 0)] c)))"
    by (rule crawl_loop_sorted) (use init_fields[OF i] in simp_all)
  then show "sorted (map page_depth (crawled_data (snd (crawl_website env c))))"
    by (simp add: crawl_website_snd)
qed (simp_all add: abc_init crawl_website_snd abc_run, auto)

theorem crawl_is_breadth_first_witness:
  "crawl_page abc_site abc_crawler ''https://a.com/'' 0
     = ([''https://a.com/b'', ''https://a.com/c''],
        snd (crawl_page abc_site abc_crawler ''https://a.com/'' 0)) \<and>
   crawl_loop abc_site [(''https://a.com/'', 0)] abc_crawler
     = crawl_loop abc_site [(''https://a.com/b'', 1), (''https://a.com/c'', 1)]
         (snd (crawl_page abc_site abc_crawler ''https://a.com/'' 0)) \<and>
   sorted (map page_depth (crawled_data (snd (crawl_website abc_site abc_crawler)))) \<and>
   fetched (snd (crawl_website abc_site abc_crawler))
        = [''https://a.com/'', ''https://a.com/b'', ''https://a.com/c'']"
proof -
  have first: "fst (crawl_page abc_site abc_crawler ''https://a.com/'' 0)
      = [''https://a.com/b'', ''https://a.com/c'']"
    unfolding abc_crawler_def by code_simp
  have left: "int (fcard (visited_urls (snd (crawl_page abc_site abc_crawler ''https://a.com/'' 0))))
         < max_pages (snd (crawl_page abc_site abc_crawler ''https://a.com/'' 0))"
    unfolding abc_crawler_def by code_simp
  have page: "crawl_page abc_site abc_crawler ''https://a.com/'' 0
     = ([''https://a.com/b'', ''https://a.com/c''],
        snd (crawl_page abc_site abc_crawler ''https://a.com/'' 0))"
    using first by (simp add: prod_eq_iff)
  from crawl_is_breadth_first[of abc_crawler 0 abc_site "''https://a.com/''"
         "[''https://a.com/b'', ''https://a.com/c'']"
         "snd (crawl_page abc_site abc_crawler ''https://a.com/'' 0)" "[]"
         "''https://a.com/''" 2 10 abc_crawler]
       page left abc_init
  show ?thesis by (simp add: fcard_fempty)
qed


section \<open>A page that fails to load\<close>

text \<open>
  Claim C5: when the fetch of a page fails (the fetcher raises, reports no success, or
  gives no or empty content), no page record is recorded for it and no link is returned;
  the state changes at most by the mark in the visited set (and the fetch itself); and
  the crawl goes on with the rest of the queue, from that state.
\<close>

theorem fetch_failure_is_skipped:
  assumes "case arun env u of None \<Rightarrow> True
           | Some r \<Rightarrow> \<not> success r \<or> markdown r = None \<or> markdown r = Some []"
  shows "fst (crawl_page env self u d) = [] \<and>
         crawled_data (snd (crawl_page env self u d)) = crawled_data self \<and>
         indexed_count (snd (crawl_page env self u d)) = indexed_count self \<and>
         (snd (crawl_page env self u d) = self \<or>
          snd (crawl_page env self u d) =
            self\<lparr>visited_urls := finsert (normalize_url (lib env) u) (visited_urls self),
                  fetched := fetched self @ [u]\<rparr>) \<and>
         (int (fcard (visited_urls self)) < max_pages self \<longrightarrow>
            crawl_loop env ((u, d) # rest) self
              = crawl_loop env rest (snd (crawl_page env self u d)))"
proof -
  have page: "crawl_page env self u d = ([], self) \<or>
        crawl_page env self u d =
          ([], self\<lparr>visited_urls := finsert (normalize_url (lib env) u) (visited_urls self),
                     fetched := fetched self @ [u]\<rparr>)"
    using assms by (auto simp: crawl_page_def Let_def split: option.splits)
  have deep: "max_depth self < d \<Longrightarrow> crawl_page env self u d = ([], self)"
    by (simp add: crawl_page_def)
  have loop: "int (fcard (visited_urls self)) < max_pages self \<Longrightarrow>
      crawl_loop env ((u, d) # rest) self = crawl_loop env rest (snd (crawl_page env self u d))"
    using page deep by (cases "max_depth self < d") (auto simp: crawl_loop.simps)
  from page loop show ?thesis by auto
qed

theorem fetch_failure_is_skipped_witness:
  "arun abc_site_b_down ''https://a.com/b'' = None \<and>
   crawl_page abc_site_b_down abc_crawler ''https://a.com/b'' 1 =
     ([], abc_crawler\<lparr>visited_urls := {|''https://a.com/b''|}, fetched := [''https://a.com/b'']\<rparr>) \<and>
   map page_url (crawled_data
      (crawl_loop abc_site_b_down [(''https://a.com/b'', 1), (''https://a.com/c'', 1)] abc_crawler))
     = [''https://a.com/c''] \<and>
   map page_url (crawled_data (snd (crawl_website abc_site_b_down abc_crawler)))
     = [''https://a.com/'', ''https://a.com/c'']"
proof -
  have down: "arun abc_site_b_down ''https://a.com/b'' = None"
    by (simp add: abc_site_b_down_def)
  have page: "crawl_page abc_site_b_down abc_crawler ''https://a.com/b'' 1 =
     ([], abc_crawler\<lparr>visited_urls := {|''https://a.com/b''|}, fetched := [''https://a.com/b'']\<rparr>)"
    by (simp add: crawl_page_def abc_normalize down fcard_fempty)
  from fetch_failure_is_skipped[of abc_site_b_down "''https://a.com/b''" abc_crawler 1
         "[(''https://a.com/c'', 1)]"] down page
  have "crawl_loop abc_site_b_down [(''https://a.com/b'', 1), (''https://a.com/c'', 1)] abc_crawler
      = crawl_loop abc_site_b_down [(''https://a.com/c'', 1)]
          (abc_crawler\<lparr>visited_urls := {|''https://a.com/b''|}, fetched := [''https://a.com/b'']\<rparr>)"
    by (simp add: fcard_fempty)
  then show ?thesis
    using down page by (simp add: b_down_rest crawl_website_snd abc_b_down_run)
qed


section \<open>Link extraction is total\<close>

text \<open>
  Claim C6: link extraction is total over all shapes of link data; it is a function
  that always returns a list and has no error result. When the link data is absent (or
  empty) the result is empty. For a flat list the result is the recognized entries, bare
  strings and the \<open>href\<close> of records that have one, in order, and every other entry is
  skipped. For a mapping of categories (with its keys distinct, as in a dictionary) the
  result holds exactly the recognized entries of every category that is a list, each as
  often as it occurs; a category that is not a list is skipped. Link data of any other
  shape gives the empty list.
\<close>

theorem extract_links_total:
  "(\<not> truthy (result_links r) \<longrightarrow> extract_links_from_result r = []) \<and>
   (result_links r = PyList l \<longrightarrow>
      extract_links_from_result r = List.map_filter recognized_link l) \<and>
   (result_links r = PyDict d \<and> distinct (map fst d) \<longrightarrow>
      mset (extract_links_from_result r) =
      mset (concat (map (\<lambda>(k, v). case v of
                           PyList l \<Rightarrow> List.map_filter recognized_link l
                         | _ \<Rightarrow> []) d))) \<and>
   (result_links r \<notin> range PyList \<union> range PyDict \<longrightarrow> extract_links_from_result r = [])"
proof (intro conjI impI)
  assume "\<not> truthy (result_links r)"
  then show "extract_links_from_result r = []" by (simp add: extract_links_from_result_def)
next
  assume "result_links r = PyList l"
  then show "extract_links_from_result r = List.map_filter recognized_link l"
    by (simp add: extract_links_from_result_def append_links_eq List.map_filter_simps)
next
  assume a: "result_links r = PyDict d \<and> distinct (map fst d)"
  have "extract_links_from_result r =
        (case map_of d ''internal'' of
           Some (PyList l) \<Rightarrow> List.map_filter recognized_link l
         | _ \<Rightarrow> []) @
        concat (map (\<lambda>(k, v). case v of
                          PyList l \<Rightarrow> if k \<noteq> ''internal'' then List.map_filter recognized_link l else []
                        | _ \<Rightarrow> []) d)"
    using a by (auto simp: extract_links_from_result_def append_categories_eq append_links_eq
                  split: option.splits pyval.splits)
  then show "mset (extract_links_from_result r) =
      mset (concat (map (\<lambda>(k, v). case v of
                           PyList l \<Rightarrow> List.map_filter recognized_link l
                         | _ \<Rightarrow> []) d))"
    using categories_mset[of d] a by simp
next
  assume "result_links r \<notin> range PyList \<union> range PyDict"
  then show "extract_links_from_result r = []"
    by (cases "result_links r") (auto simp: extract_links_from_result_def)
qed

theorem extract_links_total_witness:
  "extract_links_from_result (mixed_links\<lparr>result_links := PyNone\<rparr>) = [] \<and>
   extract_links_from_result (mixed_links\<lparr>result_links := PyList [PyStr ''/c'', PyInt 1]\<rparr>)
     = [PyStr ''/c''] \<and>
   mset (extract_links_from_result mixed_links)
     = mset [PyStr ''https://b.com/'', PyStr ''/b'', PyStr ''/c''] \<and>
   extract_links_from_result mixed_links = [PyStr ''/b'', PyStr ''/c'', PyStr ''https://b.com/''] \<and>
   extract_links_from_result (mixed_links\<lparr>result_links := PyInt 5\<rparr>) = []"
  using extract_links_total[of "mixed_links\<lparr>result_links := PyNone\<rparr>"]
        extract_links_total[of "mixed_links\<lparr>result_links := PyList [PyStr ''/c'', PyInt 1]\<rparr>"
                              "[PyStr ''/c'', PyInt 1]"]
        extract_links_total[of mixed_links _
           "[(''external'', PyList [PyStr ''https://b.com/'', PyInt 3]),
             (''internal'', PyList [PyDict [(''href'', PyStr ''/b''), (''text'', PyStr ''B'')],
                                    PyStr ''/c'', PyDict [(''text'', PyStr ''no link'')]]),
             (''count'', PyInt 2)]"]
        extract_links_total[of "mixed_links\<lparr>result_links := PyInt 5\<rparr>"]
        mixed_links_extracted
  by (simp add: mixed_links_def List.map_filter_simps image_iff)

section \<open>Deleting a session\<close>

lemma delete_unknown_session_noop:
  "sessions cm sid = None \<Longrightarrow> chat_manager_delete_session se (cm, disk) sid = (cm, disk)"
  by (simp add: chat_manager_delete_session_def)

lemma delete_known_session:
  "sessions cm sid = Some s \<Longrightarrow> session_id (vector_manager s) = sid \<Longrightarrow>
   rmtree se sid disk = Some (disk(sid := None)) \<Longrightarrow>
   chat_manager_delete_session se (cm, disk) sid
     = (cm\<lparr>sessions := (sessions cm)(sid := None)\<rparr>, disk(sid := None))"
  by (auto simp: chat_manager_delete_session_def delete_session_def split: option.splits)

text \<open>
  Claim C7: for every session id, delete detaches the in-memory index of the session and
  removes the directory of the session, and deleting an unknown session is a no-op.

  The code removes the directory only for a session that the chat manager holds in
  memory. A session that \<open>POST /crawl\<close> has just created is on disk and not yet in the chat
  manager (the first chat registers it): deleting it leaves its directory, with the saved
  index, in place.
\<close>

theorem delete_skips_session_not_in_memory:
  "snd (chat_manager_delete_session demo_store
          (snd (crawl_endpoint_store demo_store (new_chat_manager, Map.empty) ''s1'' [demo_page]))
          ''s1'') ''s1'' = Some (Some 1)"
  by (simp add: chat_manager_delete_session_def crawl_endpoint_store_def create_vector_store_def
        new_chat_manager_def new_manager_def demo_store_def)


section \<open>What a crawl returns\<close>

text \<open>
  Claim C8 says that a run returns the page records with statistics that include the
  maximum depth reached. On the site of three pages the run reaches depth 1; the
  dictionary it returns has the four keys below, and no entry of it holds that depth:
  the maximum depth is written to the log only.
\<close>

theorem max_depth_not_returned:
  "map fst (fst (crawl_website abc_site abc_crawler))
     = [''data'', ''indexed_count'', ''visited_count'', ''urls_visited''] \<and>
   max_depth_reached (snd (crawl_website abc_site abc_crawler)) = 1 \<and>
   Count 1 \<notin> snd ` set (fst (crawl_website abc_site abc_crawler))"
  by (simp add: crawl_website_fst crawl_website_snd abc_run max_depth_reached_def
        fcard_finsert_if)

text \<open>
  Claim C8, amended: every crawl run ends and returns the dictionary of all collected
  page records (\<open>data\<close>), the number of pages indexed (\<open>indexed_count\<close>, which is the
  number of records), the number of URLs visited (\<open>visited_count\<close>) and the visited URLs
  themselves (\<open>urls_visited\<close>).
\<close>

theorem crawl_website_returns:
  assumes "init env b md mp = Some c"
  shows "snd (crawl_website env c) = crawl_loop env [(b, 0)] c \<and>
         fst (crawl_website env c) =
           [(''data'', Data (crawled_data (snd (crawl_website env c)))),
            (''indexed_count'', Count (int (length (crawled_data (snd (crawl_website env c)))))),
            (''visited_count'', Count (int (fcard (visited_urls (snd (crawl_website env c)))))),
            (''urls_visited'', Urls (visited_urls (snd (crawl_website env c))))]"
proof -
  let ?P = "\<lambda>self. indexed_count self = int (length (crawled_data self))"
  have "?P c" using init_fields[OF assms] by simp
  then have "?P (crawl_loop env [(base_url c, 0)] c)"
    by (rule crawl_loop_invariant) (rule crawl_page_keeps_count_invariant)
  then show ?thesis
    using init_fields[OF assms] by (simp add: crawl_website_fst crawl_website_snd)
qed

theorem crawl_website_returns_witness:
  "init abc_site ''https://a.com/'' 2 10 = Some abc_crawler \<and>
   fst (crawl_website abc_site abc_crawler) =
     [(''data'', Data
        [\<lparr>page_url = ''https://a.com/'', page_content = ''text'', page_title = ''T'', page_depth = 0\<rparr>,
         \<lparr>page_url = ''https://a.com/b'', page_content = ''text'', page_title = ''T'', page_depth = 1\<rparr>,
         \<lparr>page_url = ''https://a.com/c'', page_content = ''text'', page_title = ''T'', page_depth = 1\<rparr>]),
      (''indexed_count'', Count 3),
      (''visited_count'', Count 3),
      (''urls_visited'', Urls {|''https://a.com/c'', ''https://a.com/b'', ''https://a.com/''|})]"
  using crawl_website_returns[OF abc_init] abc_init
  by (simp add: abc_run fcard_finsert_if)

section \<open>Searching a session\<close>

text \<open>
  Claim C9: search fails with the "not ready" error (the \<open>ValueError\<close> "No vector store
  found") when the manager has no index in memory and none can be loaded from the
  directory of the session; when an index is in memory, or is loaded from the directory,
  the outcome of the search is the answer of that index, and the loaded index stays
  attached.
\<close>

theorem similarity_search_not_ready:
  "(vector_store self = None \<and> \<not> fst (load_vector_store se disk self) \<longrightarrow>
      fst (similarity_search se disk self q k) =
        Inl (ValueError (''No vector store found for session '' @ session_id self)))
   \<and> (vector_store self = Some i \<longrightarrow>
        similarity_search se disk self q k = (index_search se i q k, self))
   \<and> (vector_store self = None \<and> disk (session_id self) = Some (Some saved)
        \<and> load_local se saved = Some i \<longrightarrow>
        similarity_search se disk self q k
          = (index_search se i q k, self\<lparr>vector_store := Some i\<rparr>))"
  by (auto simp: similarity_search_def load_vector_store_def split: option.splits prod.splits)

theorem similarity_search_not_ready_witness:
  "fst (similarity_search demo_store Map.empty (new_manager ''s1'') ''q'' 4)
     = Inl (ValueError ''No vector store found for session s1'')
   \<and> similarity_search demo_store Map.empty \<lparr>session_id = ''s1'', vector_store = Some 7\<rparr> ''q'' 2
       = (Inr [''q'', ''q''], \<lparr>session_id = ''s1'', vector_store = Some 7\<rparr>)
   \<and> similarity_search demo_store [''s1'' \<mapsto> Some 7] (new_manager ''s1'') ''q'' 2
       = (Inr [''q'', ''q''], \<lparr>session_id = ''s1'', vector_store = Some 7\<rparr>)"
  using similarity_search_not_ready[where self = "new_manager ''s1''" and se = demo_store
          and disk = Map.empty and q = "''q''" and k = 4]
        similarity_search_not_ready[where self = "\<lparr>session_id = ''s1'', vector_store = Some 7\<rparr>"
          and se = demo_store and disk = Map.empty and q = "''q''" and k = 2 and i = 7]
        similarity_search_not_ready[where self = "new_manager ''s1''" and se = demo_store
          and disk = "[''s1'' \<mapsto> Some 7]" and q = "''q''" and k = 2 and i = 7 and saved = 7]
  by (simp add: new_manager_def load_vector_store_def demo_store_def numeral_2_eq_2)


section \<open>Normalising twice\<close>

text \<open>
  Claim C10 says that normalisation is idempotent on every URL with a scheme and a host.
  The function removes one trailing slash and drops everything after the path, and the
  path that the parser returns ends at the first \<open>;\<close> of the last segment. So a path that
  ends in two slashes loses one slash at each application, and a path whose last segment
  was cut at a \<open>;\<close> before the slash was removed is cut there by the second application:
  \<open>http://a.com/x//\<close> becomes \<open>http://a.com/x/\<close> and then \<open>http://a.com/x\<close>, and
  \<open>http://a.com/a;b/\<close> becomes \<open>http://a.com/a;b\<close> and then \<open>http://a.com/a\<close>.
\<close>

theorem normalize_url_not_idempotent:
  "normalize_url lib0 ''http://a.com/x//'' = ''http://a.com/x/'' \<and>
   normalize_url lib0 (normalize_url lib0 ''http://a.com/x//'') = ''http://a.com/x'' \<and>
   normalize_url lib0 ''http://a.com/a;b/'' = ''http://a.com/a;b'' \<and>
   normalize_url lib0 (normalize_url lib0 ''http://a.com/a;b/'') = ''http://a.com/a''"
  by code_simp

text \<open>
  Claim C10, amended: normalisation is idempotent on every URL that parses with a
  non-empty scheme and a non-empty host, whose parsed path contains no \<open>;\<close> and does not
  end in two slashes (the path \<open>//\<close> itself apart): applying the function to its own
  output yields the same string as applying it once.
\<close>

theorem normalize_url_idempotent:
  assumes "urlparse lb u = Some r" and "scheme r \<noteq> []" and "netloc r \<noteq> []"
    and "CHR '';'' \<notin> set (path r)"
    and "\<not> (suffix ''//'' (path r) \<and> 2 < length (path r))"
  shows "normalize_url lb (normalize_url lb u) = normalize_url lb u"
proof -
  let ?s = "scheme r" and ?n = "netloc r" and ?p = "path r"
  let ?full = "?s @ ''://'' @ ?n @ ?p"
  note rb = urlparse_rebuilt[OF assms(1-4)]
  have first: "normalize_url lb u =
      (if endswith ?full ''/'' \<and> 1 < length ?p then butlast ?full else ?full)"
    unfolding normalize_url_def assms(1) by (simp add: Let_def)
  show ?thesis
  proof (cases "endswith ?full ''/'' \<and> 1 < length ?p")
    case True
    then have pne: "?p \<noteq> []" by auto
    have lastp: "last ?p = CHR ''/''"
      using True endswith_slash[OF pne, of "?s @ ''://'' @ ?n"] by simp
    let ?q = "butlast ?p"
    have bl: "butlast ?full = ?s @ ''://'' @ ?n @ ?q"
      using butlast_append[of "?s @ ''://'' @ ?n" ?p]
      by (simp only: append_assoc pne if_False)
    have n1: "normalize_url lb u = ?s @ ''://'' @ ?n @ ?q"
      unfolding first using True bl by simp
    have rbq: "urlparse lb (?s @ ''://'' @ ?n @ ?q) =
           Some \<lparr>scheme = ?s, netloc = ?n, path = ?q, params = '''', query = '''',
                  fragment = ''''\<rparr>"
      using rb[of "length ?p - 1"] by (simp only: butlast_conv_take)
    have stop: "\<not> (endswith (?s @ ''://'' @ ?n @ ?q) ''/'' \<and> 1 < length ?q)"
    proof
      assume a: "endswith (?s @ ''://'' @ ?n @ ?q) ''/'' \<and> 1 < length ?q"
      then have "1 < length ?q" by blast
      then have qne: "?q \<noteq> []" by (metis list.size(3) not_less_zero)
      have "last ?q = CHR ''/''"
        using a endswith_slash[OF qne, of "?s @ ''://'' @ ?n"] by simp
      then have "suffix ''//'' ?p" using double_slash[OF lastp qne] by blast
      moreover have "2 < length ?p" using \<open>1 < length ?q\<close> by simp
      ultimately show False using assms(5) by blast
    qed
    have "normalize_url lb (?s @ ''://'' @ ?n @ ?q) = ?s @ ''://'' @ ?n @ ?q"
      using rbq stop by (rule normalize_url_parts)
    then show ?thesis unfolding n1 .
  next
    case False
    have n1: "normalize_url lb u = ?full" unfolding first using False by auto
    have whole: "take (length ?p) ?p = ?p" by simp
    have "normalize_url lb ?full = ?full"
      using rb[of "length ?p", unfolded whole] False by (rule normalize_url_parts)
    then show ?thesis unfolding n1 .
  qed
qed

theorem normalize_url_idempotent_witness:
  "urlparse lib0 ''https://a.com/docs/'' =
     Some \<lparr>scheme = ''https'', netloc = ''a.com'', path = ''/docs/'', params = '''',
           query = '''', fragment = ''''\<rparr> \<and>
   normalize_url lib0 ''https://a.com/docs/'' = ''https://a.com/docs'' \<and>
   normalize_url lib0 (normalize_url lib0 ''https://a.com/docs/'') =
     normalize_url lib0 ''https://a.com/docs/''"
proof -
  have p: "urlparse lib0 ''https://a.com/docs/'' =
     Some \<lparr>scheme = ''https'', netloc = ''a.com'', path = ''/docs/'', params = '''',
           query = '''', fragment = ''''\<rparr>" by code_simp
  have n: "normalize_url lib0 ''https://a.com/docs/'' = ''https://a.com/docs''" by code_simp
  have d: "\<not> suffix ''//'' ''/docs/''" by (simp add: suffix_def append_eq_Cons_conv)
  from normalize_url_idempotent[OF p] d p n show ?thesis by simp
qed

end
